theory Spec2Isabelle
  imports Complex_Main "HOL-Library.Monad_Syntax"
begin

section \<open>Numbers and small utilities of main.js\<close>

text \<open>
  JavaScript Numbers are modelled as HOL reals: the arithmetic of the script
  (one division, one power, a few products and sums on values between 0 and 1) is
  taken as exact. \<open>Math.pow(x, 1.1)\<close> on a non-negative base is \<open>x powr 1.1\<close>
  (both give 0 at 0 and 1 at 1).
\<close>

text \<open>\<^verbatim>\<open>const clamp = (v, min, max) => Math.min(max, Math.max(min, v));\<close>\<close>

definition clamp :: "real \<Rightarrow> real \<Rightarrow> real \<Rightarrow> real" where
  "clamp v mn mx = min mx (max mn v)"

text \<open>
  \<open>Number.prototype.toFixed(3)\<close>: for a magnitude below \<open>10^21\<close> the result is the
  decimal string of \<open>n / 1000\<close>, where \<open>n\<close> is the integer closest to \<open>1000 * |x|\<close>
  (the larger one on a tie), with the sign of \<open>x\<close> in front; otherwise it is the
  ordinary string of the number. The model returns the number that the string denotes.
\<close>

definition toFixed3 :: "real \<Rightarrow> real" where
  "toFixed3 x =
     (if 10 ^ 21 \<le> \<bar>x\<bar> then x
      else if x < 0 then - (real_of_int \<lfloor>(- x) * 1000 + 1 / 2\<rfloor> / 1000)
      else real_of_int \<lfloor>x * 1000 + 1 / 2\<rfloor> / 1000)"

section \<open>The page and the cached state\<close>

text \<open>An element of the document is named by a number.\<close>

type_synonym elem = nat

text \<open>
  What the script reads from the page when \<open>DOMContentLoaded\<close> fires: the results of its
  \<open>querySelector\<close> calls (\<open>None\<close> is \<open>null\<close>), of its \<open>querySelectorAll\<close> calls, the
  \<open>complete\<close> flag of each background image, the media query, the window geometry, and
  the class lists and bounding boxes (left, top) the HTML gives the elements.
\<close>

record page =
  titleEl :: "elem option"
  titleText :: "elem option"
  pageLoader :: "elem option"
  bgImgs :: "bool list"
  sunrise :: "elem option"
  sunset :: "elem option"
  bgOverlay :: "elem option"
  revealTargets :: "elem list"
  orbs :: "elem list"
  pointerFine :: bool
  winScrollY :: real
  scrollHeight :: real
  innerHeight :: real
  htmlClasses :: "elem \<Rightarrow> string set"
  htmlRect :: "elem \<Rightarrow> real \<times> real"

text \<open>The \<open>state\<close> object of section 1 of the script.\<close>

record state =
  scrollY :: real
  docHeight :: real
  ticking :: bool

text \<open>
  A value assigned to a style property: a number (also the number denoted by a
  \<open>toFixed\<close> string), a length \<open>${v}px\<close>, the transform \<open>translate3d(0, ${v}px, 0)\<close>,
  or a literal text.
\<close>

datatype css_value =
    CssNumber real
  | CssPx real
  | Translate3dY real
  | CssText string

type_synonym style_write = "elem \<times> string \<times> css_value"

text \<open>
  \<open>el.style.prop = v\<close>. On a \<open>null\<close> reference the property access throws a
  TypeError, which is the result \<open>None\<close>.
\<close>

definition setStyle :: "elem option \<Rightarrow> string \<Rightarrow> css_value \<Rightarrow> style_write option" where
  "setStyle el p v = (case el of None \<Rightarrow> None | Some e \<Rightarrow> Some (e, p, v))"

section \<open>Scroll blending: updateVisuals\<close>

definition gamma_of :: "state \<Rightarrow> real" where
  "gamma_of s = clamp (scrollY s / docHeight s) 0 1 powr 1.1"

text \<open>
  One call of \<open>updateVisuals\<close>: the new \<open>state\<close> and the style writes in the order the
  code makes them; \<open>None\<close> would be an exception.
\<close>

definition updateVisuals :: "page \<Rightarrow> state \<Rightarrow> (state \<times> style_write list) option" where
  "updateVisuals pg s =
     (if docHeight s \<le> 0 then Some (s\<lparr>ticking := False\<rparr>, [])
      else
        let progress = scrollY s / docHeight s;
            gamma = clamp progress 0 1 powr 1.1
        in do {
          ws1 \<leftarrow> (if sunrise pg \<noteq> None \<and> sunset pg \<noteq> None then do {
                     a \<leftarrow> setStyle (sunrise pg) ''opacity'' (CssNumber (toFixed3 (1 - gamma)));
                     b \<leftarrow> setStyle (sunset pg) ''opacity'' (CssNumber (toFixed3 gamma));
                     c \<leftarrow> setStyle (sunrise pg) ''transform'' (Translate3dY (- (gamma * 8)));
                     d \<leftarrow> setStyle (sunset pg) ''transform'' (Translate3dY (- (gamma * 12)));
                     Some [a, b, c, d]
                   } else Some []);
          ws2 \<leftarrow> (if bgOverlay pg \<noteq> None then do {
                     e \<leftarrow> setStyle (bgOverlay pg) ''opacity'' (CssNumber (0.08 + gamma * 0.18));
                     Some [e]
                   } else Some []);
          Some (s\<lparr>ticking := False\<rparr>, ws1 @ ws2)
        })"

section \<open>The event loop: timers, animation frames, promises\<close>

text \<open>
  The closures the script hands to \<open>requestAnimationFrame\<close> and \<open>setTimeout\<close>:
  \<^item> \<open>TitleVisible\<close>: \<^verbatim>\<open>() => titleEl.classList.add('visible')\<close>;
  \<^item> \<open>Shimmer\<close>: the 400ms callback of section 2;
  \<^item> \<open>Floaty\<close>: \<^verbatim>\<open>() => titleText.classList.add('floaty')\<close>;
  \<^item> \<open>LoaderRemove\<close>: \<^verbatim>\<open>() => pageLoader.remove()\<close>;
  \<^item> \<open>RaceTimeout\<close>: the \<open>resolve\<close> of the 1500ms promise;
  \<^item> \<open>UpdateVisuals\<close>: \<open>updateVisuals\<close>;
  \<^item> \<open>MoveOrbs x y\<close>: \<^verbatim>\<open>() => moveOrbs(e)\<close> with \<open>e.clientX = x\<close>, \<open>e.clientY = y\<close>.
\<close>

datatype callback =
    TitleVisible
  | Shimmer
  | Floaty
  | LoaderRemove
  | RaceTimeout
  | UpdateVisuals
  | MoveOrbs real real

text \<open>The promise returned by \<open>Promise.race\<close> in section 3.\<close>

datatype race = NoRace | RacePending | RaceSettled

text \<open>
  Everything that changes during the page session: the clock (in ms) and the pending
  timers with their due times, the callbacks waiting for the next animation frame, the
  \<open>state\<close> object and \<open>mouseTicking\<close>, which listeners and observers exist, the class
  lists, the elements removed from the document, the current bounding boxes (left, top),
  the promises of section 3, and a journal of every callback run with the style writes
  it made.
\<close>

record world =
  now :: nat
  timers :: "(nat \<times> callback) list"
  rafQueue :: "callback list"
  st :: state
  mouseTicking :: bool
  scrollListener :: bool
  mouseListener :: bool
  classList :: "elem \<Rightarrow> string set"
  removed :: "elem set"
  rect :: "elem \<Rightarrow> real \<times> real"
  imgPromises :: "bool list"
  timeoutPromise :: bool
  raceState :: race
  observer :: bool
  observed :: "elem set"
  journal :: "(callback \<times> style_write list) list"

definition setTimeout :: "callback \<Rightarrow> nat \<Rightarrow> world \<Rightarrow> world" where
  "setTimeout f d w = w\<lparr>timers := timers w @ [(now w + d, f)]\<rparr>"

definition requestAnimationFrame :: "callback \<Rightarrow> world \<Rightarrow> world" where
  "requestAnimationFrame f w = w\<lparr>rafQueue := rafQueue w @ [f]\<rparr>"

text \<open>\<open>el.classList.add(c)\<close>; on \<open>null\<close> it throws before any effect.\<close>

definition addClass :: "elem option \<Rightarrow> string \<Rightarrow> world \<Rightarrow> world" where
  "addClass el c w =
     (case el of None \<Rightarrow> w
      | Some e \<Rightarrow> w\<lparr>classList := (classList w)(e := insert c (classList w e))\<rparr>)"

section \<open>Page loader: removeLoader\<close>

definition removeLoader :: "page \<Rightarrow> world \<Rightarrow> world" where
  "removeLoader pg w =
     (case pageLoader pg of
        None \<Rightarrow> w
      | Some l \<Rightarrow>
          if ''hidden'' \<in> classList w l then w
          else setTimeout LoaderRemove 900 (addClass (Some l) ''hidden'' w))"

text \<open>
  The microtask checkpoint at the end of a task. The only promise reactions of the
  script are those of \<open>Promise.all\<close>, \<open>Promise.race\<close> and \<open>.then(removeLoader)\<close>: the
  race settles once, as soon as every image promise or the timeout promise is resolved,
  and then calls \<open>removeLoader\<close>.
\<close>

definition settle :: "page \<Rightarrow> world \<Rightarrow> world" where
  "settle pg w =
     (if raceState w = RacePending \<and> (list_all (\<lambda>r. r) (imgPromises w) \<or> timeoutPromise w)
      then removeLoader pg (w\<lparr>raceState := RaceSettled\<rparr>)
      else w)"

section \<open>Scroll and pointer handlers\<close>

definition onScroll :: "real \<Rightarrow> world \<Rightarrow> world" where
  "onScroll y w =
     (let w1 = w\<lparr>st := (st w)\<lparr>scrollY := y\<rparr>\<rparr>
      in if \<not> ticking (st w1)
         then (let w2 = requestAnimationFrame UpdateVisuals w1
               in w2\<lparr>st := (st w2)\<lparr>ticking := True\<rparr>\<rparr>)
         else w1)"

definition moveOrbs :: "page \<Rightarrow> real \<Rightarrow> real \<Rightarrow> world \<Rightarrow> world \<times> style_write list" where
  "moveOrbs pg cx cy w =
     (w\<lparr>mouseTicking := False\<rparr>,
      concat (map (\<lambda>btn. [(btn, ''--mx'', CssPx (cx - fst (rect w btn))),
                          (btn, ''--my'', CssPx (cy - snd (rect w btn)))]) (orbs pg)))"

definition onMouseMove :: "real \<Rightarrow> real \<Rightarrow> world \<Rightarrow> world" where
  "onMouseMove cx cy w =
     (if \<not> mouseTicking w
      then (requestAnimationFrame (MoveOrbs cx cy) w)\<lparr>mouseTicking := True\<rparr>
      else w)"

section \<open>Intersection observer\<close>

text \<open>An entry is its target and its \<open>isIntersecting\<close> flag.\<close>

type_synonym entry = "elem \<times> bool"

definition onEntry :: "entry \<Rightarrow> world \<Rightarrow> world" where
  "onEntry en w =
     (if snd en
      then (addClass (Some (fst en)) ''visible'' w)\<lparr>observed := observed w - {fst en}\<rparr>
      else w)"

definition observerCallback :: "entry list \<Rightarrow> world \<Rightarrow> world" where
  "observerCallback entries w = fold onEntry entries w"

text \<open>
  The number of entries of a notification sequence at which the element's revealed
  state (having the class \<open>visible\<close>) changes.
\<close>

definition revealed :: "elem \<Rightarrow> world \<Rightarrow> bool" where
  "revealed e w = (''visible'' \<in> classList w e)"

fun reveal_changes :: "elem \<Rightarrow> entry list \<Rightarrow> world \<Rightarrow> nat" where
  "reveal_changes e [] w = 0"
| "reveal_changes e (en # ens) w =
     (if revealed e (onEntry en w) = revealed e w then 0 else 1)
       + reveal_changes e ens (onEntry en w)"

section \<open>Running callbacks\<close>

text \<open>
  The effect of one callback: the new world and the style writes. A \<open>null\<close> reference
  would throw before the callback has changed anything, which leaves the world as it is;
  \<open>updateVisuals\<close> never throws (lemma \<open>updateVisuals_state\<close>).
\<close>

definition effect :: "page \<Rightarrow> callback \<Rightarrow> world \<Rightarrow> world \<times> style_write list" where
  "effect pg cb w =
     (case cb of
        TitleVisible \<Rightarrow> (addClass (titleEl pg) ''visible'' w, [])
      | Shimmer \<Rightarrow>
          (case titleText pg of
             None \<Rightarrow> (w, [])
           | Some t \<Rightarrow> (setTimeout Floaty 1600 w, [(t, ''backgroundPosition'', CssText ''120% 0'')]))
      | Floaty \<Rightarrow> (addClass (titleText pg) ''floaty'' w, [])
      | LoaderRemove \<Rightarrow>
          (case pageLoader pg of
             None \<Rightarrow> (w, [])
           | Some l \<Rightarrow> (w\<lparr>removed := insert l (removed w)\<rparr>, []))
      | RaceTimeout \<Rightarrow> (w\<lparr>timeoutPromise := True\<rparr>, [])
      | UpdateVisuals \<Rightarrow>
          (case updateVisuals pg (st w) of
             None \<Rightarrow> (w, [])
           | Some (s, ws) \<Rightarrow> (w\<lparr>st := s\<rparr>, ws))
      | MoveOrbs cx cy \<Rightarrow> moveOrbs pg cx cy w)"

definition run_callback :: "page \<Rightarrow> callback \<Rightarrow> world \<Rightarrow> world" where
  "run_callback pg cb w =
     (let (w1, ws) = effect pg cb w in w1\<lparr>journal := journal w1 @ [(cb, ws)]\<rparr>)"

text \<open>An animation frame runs the callbacks requested before it, in order.\<close>

definition run_frame :: "page \<Rightarrow> world \<Rightarrow> world" where
  "run_frame pg w = fold (run_callback pg) (rafQueue w) (w\<lparr>rafQueue := []\<rparr>)"

text \<open>
  The timer that fires next: the earliest due time, the earlier registration on a tie.
\<close>

fun earliest :: "(nat \<times> callback) list \<Rightarrow> (nat \<times> callback) option" where
  "earliest [] = None"
| "earliest (t # ts) =
     (case earliest ts of
        None \<Rightarrow> Some t
      | Some u \<Rightarrow> if fst t \<le> fst u then Some t else Some u)"

text \<open>Timers fire on time: the clock moves to the due time of the timer that fires.\<close>

definition fire_timer :: "page \<Rightarrow> world \<Rightarrow> world" where
  "fire_timer pg w =
     (case earliest (timers w) of
        None \<Rightarrow> w
      | Some t \<Rightarrow>
          run_callback pg (snd t)
            (w\<lparr>timers := remove1 t (timers w), now := max (now w) (fst t)\<rparr>))"

section \<open>The DOMContentLoaded handler\<close>

definition world0 :: "page \<Rightarrow> world" where
  "world0 pg =
     \<lparr>now = 0, timers = [], rafQueue = [],
      st = \<lparr>scrollY = winScrollY pg, docHeight = scrollHeight pg - innerHeight pg,
            ticking = False\<rparr>,
      mouseTicking = False, scrollListener = False, mouseListener = False,
      classList = htmlClasses pg, removed = {}, rect = htmlRect pg,
      imgPromises = [], timeoutPromise = False, raceState = NoRace,
      observer = False, observed = {}, journal = []\<rparr>"

text \<open>Section 2 of the script (hero shimmer).\<close>

definition init_intro :: "page \<Rightarrow> world \<Rightarrow> world" where
  "init_intro pg w =
     (if titleEl pg \<noteq> None \<and> titleText pg \<noteq> None
      then setTimeout Shimmer 400 (requestAnimationFrame TitleVisible w)
      else w)"

text \<open>
  Section 3 (page loader). The promise of an image is resolved from the start when the
  image is \<open>complete\<close>; otherwise \<open>onload\<close> and \<open>onerror\<close> are both set to its \<open>resolve\<close>.
\<close>

definition init_loader :: "page \<Rightarrow> world \<Rightarrow> world" where
  "init_loader pg w =
     (if length (bgImgs pg) = 0 then removeLoader pg w
      else setTimeout RaceTimeout 1500
             (w\<lparr>imgPromises := map (\<lambda>complete. complete) (bgImgs pg),
                raceState := RacePending\<rparr>))"

text \<open>Section 4 (scroll blending).\<close>

definition init_scroll :: "page \<Rightarrow> world \<Rightarrow> world" where
  "init_scroll pg w =
     (if sunrise pg \<noteq> None \<and> sunset pg \<noteq> None
      then run_callback pg UpdateVisuals (w\<lparr>scrollListener := True\<rparr>)
      else w)"

text \<open>Section 5 (intersection observer).\<close>

definition init_reveal :: "page \<Rightarrow> world \<Rightarrow> world" where
  "init_reveal pg w =
     (if length (revealTargets pg) > 0
      then w\<lparr>observer := True, observed := observed w \<union> set (revealTargets pg)\<rparr>
      else w)"

text \<open>Section 6 (mouse follower).\<close>

definition init_pointer :: "page \<Rightarrow> world \<Rightarrow> world" where
  "init_pointer pg w =
     (if pointerFine pg \<and> length (orbs pg) > 0
      then w\<lparr>mouseListener := True, mouseTicking := False\<rparr>
      else w)"

definition init :: "page \<Rightarrow> world" where
  "init pg =
     settle pg (init_pointer pg (init_reveal pg (init_scroll pg
       (init_loader pg (init_intro pg (world0 pg))))))"

section \<open>Events after initialisation\<close>

text \<open>
  \<open>Resize sh ih\<close> carries the new \<open>scrollHeight\<close> and \<open>innerHeight\<close>, \<open>Scroll y\<close> the new
  \<open>window.scrollY\<close>, \<open>MouseMove x y\<close> the pointer position, \<open>ImgLoad i\<close> and \<open>ImgError i\<close>
  the index of the image, \<open>Intersect\<close> the entries delivered to the observer callback,
  \<open>Relayout\<close> the new bounding boxes. \<open>Frame\<close> is an animation frame and \<open>FireTimer\<close> the
  expiry of the next timer.
\<close>

datatype event =
    Resize real real
  | Scroll real
  | MouseMove real real
  | Frame
  | FireTimer
  | ImgLoad nat
  | ImgError nat
  | Intersect "entry list"
  | Relayout "elem \<Rightarrow> real \<times> real"

text \<open>The \<open>resolve\<close> installed as \<open>onload\<close> and \<open>onerror\<close> of an image that was not complete.\<close>

definition resolveImg :: "page \<Rightarrow> nat \<Rightarrow> world \<Rightarrow> world" where
  "resolveImg pg i w =
     (if i < length (bgImgs pg) \<and> \<not> bgImgs pg ! i
      then w\<lparr>imgPromises := (imgPromises w)[i := True]\<rparr>
      else w)"

definition handle :: "page \<Rightarrow> event \<Rightarrow> world \<Rightarrow> world" where
  "handle pg ev w =
     (case ev of
        Resize sh ih \<Rightarrow> w\<lparr>st := (st w)\<lparr>docHeight := sh - ih\<rparr>\<rparr>
      | Scroll y \<Rightarrow> if scrollListener w then onScroll y w else w
      | MouseMove cx cy \<Rightarrow> if mouseListener w then onMouseMove cx cy w else w
      | Frame \<Rightarrow> run_frame pg w
      | FireTimer \<Rightarrow> fire_timer pg w
      | ImgLoad i \<Rightarrow> resolveImg pg i w
      | ImgError i \<Rightarrow> resolveImg pg i w
      | Intersect entries \<Rightarrow> if observer w then observerCallback entries w else w
      | Relayout r \<Rightarrow> w\<lparr>rect := r\<rparr>)"

text \<open>One task of the event loop: the handler, then the microtask checkpoint.\<close>

definition step :: "page \<Rightarrow> event \<Rightarrow> world \<Rightarrow> world" where
  "step pg ev w = settle pg (handle pg ev w)"

definition run :: "page \<Rightarrow> event list \<Rightarrow> world \<Rightarrow> world" where
  "run pg evs w = fold (step pg) evs w"

section \<open>Reading the journal, and what holds between tasks\<close>

text \<open>The style writes of every run of \<open>updateVisuals\<close> so far, oldest first.\<close>

definition recomputations :: "world \<Rightarrow> style_write list list" where
  "recomputations w = map snd (filter (\<lambda>en. fst en = UpdateVisuals) (journal w))"

text \<open>
  Between tasks: the scroll listener exists exactly if both layers do, \<open>updateVisuals\<close>
  waits for the next frame exactly if \<open>state.ticking\<close> is set, and then only once, and no
  timer holds it.
\<close>

definition engine_inv :: "page \<Rightarrow> world \<Rightarrow> bool" where
  "engine_inv pg w =
     (scrollListener w = (sunrise pg \<noteq> None \<and> sunset pg \<noteq> None)
      \<and> count_list (rafQueue w) UpdateVisuals = (if ticking (st w) then 1 else 0)
      \<and> UpdateVisuals \<notin> snd ` set (timers w))"

text \<open>The style writes of every run of \<open>moveOrbs\<close> so far, oldest first.\<close>

fun isMoveOrbs :: "callback \<Rightarrow> bool" where
  "isMoveOrbs (MoveOrbs cx cy) = True"
| "isMoveOrbs cb = False"

definition orb_updates :: "world \<Rightarrow> style_write list list" where
  "orb_updates w = map snd (filter (\<lambda>en. isMoveOrbs (fst en)) (journal w))"

text \<open>
  Between tasks: the mousemove listener exists exactly if the pointer is fine and there
  are orbs, a \<open>moveOrbs\<close> callback waits for the next frame exactly if \<open>mouseTicking\<close> is
  set, and then only one, and no timer holds one.
\<close>

definition pointer_inv :: "page \<Rightarrow> world \<Rightarrow> bool" where
  "pointer_inv pg w =
     (mouseListener w = (pointerFine pg \<and> length (orbs pg) > 0)
      \<and> length (filter isMoveOrbs (rafQueue w)) = (if mouseTicking w then 1 else 0)
      \<and> filter isMoveOrbs (map snd (timers w)) = [])"

text \<open>
  The completion signal of image \<open>i\<close> after the events \<open>evs\<close>: the image was complete when
  the handler ran, or a load event or an error event for it has arrived since.
\<close>

definition imgDone :: "page \<Rightarrow> event list \<Rightarrow> nat \<Rightarrow> bool" where
  "imgDone pg evs i = (bgImgs pg ! i \<or> ImgLoad i \<in> set evs \<or> ImgError i \<in> set evs)"

text \<open>
  Between tasks, on a page with background images, after the events \<open>evs\<close>: the image
  promises are the completion signals; the race is settled exactly if all of them or the
  timeout promise are resolved; the timeout promise is resolved only from 1500ms on, and
  until then its timer is pending; the overlay is hidden exactly if it was hidden in the
  HTML or the race is settled.
\<close>

definition loader_inv :: "page \<Rightarrow> event list \<Rightarrow> world \<Rightarrow> bool" where
  "loader_inv pg evs u =
     (raceState u \<noteq> NoRace
      \<and> imgPromises u = map (imgDone pg evs) [0..<length (bgImgs pg)]
      \<and> (raceState u = RaceSettled) = (list_all (\<lambda>r. r) (imgPromises u) \<or> timeoutPromise u)
      \<and> (timeoutPromise u \<longrightarrow> 1500 \<le> now u)
      \<and> (timeoutPromise u \<or> (1500, RaceTimeout) \<in> set (timers u))
      \<and> (\<forall>t\<in>set (timers u). snd t = RaceTimeout \<longrightarrow> fst t = 1500)
      \<and> RaceTimeout \<notin> set (rafQueue u)
      \<and> (\<forall>l. pageLoader pg = Some l \<longrightarrow>
            (''hidden'' \<in> classList u l)
              = (''hidden'' \<in> htmlClasses pg l \<or> raceState u = RaceSettled)))"

section \<open>Two example pages\<close>

text \<open>
  A page with every element the script looks for (two background images, the first still
  loading; two reveal targets; one orb; a fine pointer; 2000 pixels to scroll), and a
  page with none of them.
\<close>

definition example_page :: page where
  "example_page =
     \<lparr>titleEl = Some 10, titleText = Some 11, pageLoader = Some 12, bgImgs = [False, True],
      sunrise = Some 13, sunset = Some 14, bgOverlay = Some 15, revealTargets = [16, 17],
      orbs = [18], pointerFine = True, winScrollY = 0, scrollHeight = 3000,
      innerHeight = 1000, htmlClasses = (\<lambda>_. {}), htmlRect = (\<lambda>_. (0, 0))\<rparr>"

definition bare_page :: page where
  "bare_page =
     \<lparr>titleEl = None, titleText = None, pageLoader = None, bgImgs = [],
      sunrise = None, sunset = None, bgOverlay = None, revealTargets = [],
      orbs = [], pointerFine = False, winScrollY = 0, scrollHeight = 800,
      innerHeight = 800, htmlClasses = (\<lambda>_. {}), htmlRect = (\<lambda>_. (0, 0))\<rparr>"

section \<open>Rounding, clamping and the blend value\<close>



lemma clamp_mono: "x \<le> y \<Longrightarrow> clamp x 0 1 \<le> clamp y 0 1"
  by (auto simp: clamp_def)

lemma clamp_range: "0 \<le> clamp x 0 1 \<and> clamp x 0 1 \<le> 1"
  by (auto simp: clamp_def)

lemma gamma_of_mono:
  "0 < docHeight s1 \<Longrightarrow> docHeight s2 = docHeight s1 \<Longrightarrow> scrollY s1 \<le> scrollY s2 \<Longrightarrow>
   gamma_of s1 \<le> gamma_of s2"
  unfolding gamma_of_def
  by (intro powr_mono2 clamp_mono) (auto simp: clamp_range divide_right_mono)

lemma toFixed3_0: "toFixed3 0 = 0"
  by (simp add: toFixed3_def)

lemma toFixed3_1: "toFixed3 1 = 1"
  by (simp add: toFixed3_def)

lemma toFixed3_mono: "0 \<le> x \<Longrightarrow> x \<le> y \<Longrightarrow> y \<le> 1 \<Longrightarrow> toFixed3 x \<le> toFixed3 y"
  unfolding toFixed3_def by (auto intro!: divide_right_mono floor_mono)

lemma gamma_of_range: "0 \<le> gamma_of s \<and> gamma_of s \<le> 1"
  using clamp_range[of "scrollY s / docHeight s"]
  by (auto simp: gamma_of_def powr_le1)

section \<open>Properties of one recomputation\<close>

text \<open>
  C3. When the cached scrollable height is zero or negative, a recomputation returns
  normally (no exception), makes no style write, and changes nothing in the state but
  the pending flag, which it clears.
\<close>

theorem updateVisuals_degenerate:
  "docHeight s \<le> 0 \<Longrightarrow> updateVisuals pg s = Some (s\<lparr>ticking := False\<rparr>, [])"
  by (simp add: updateVisuals_def)

theorem updateVisuals_degenerate_witness:
  "updateVisuals example_page \<lparr>scrollY = 0, docHeight = - 200, ticking = True\<rparr>
   = Some (\<lparr>scrollY = 0, docHeight = - 200, ticking = False\<rparr>, [])"
  using updateVisuals_degenerate[of "\<lparr>scrollY = 0, docHeight = - 200, ticking = True\<rparr>"
      example_page]
  by simp

lemma updateVisuals_writes:
  assumes "0 < docHeight s" "sunrise pg = Some a" "sunset pg = Some b"
  shows "updateVisuals pg s =
     Some (s\<lparr>ticking := False\<rparr>,
       [(a, ''opacity'', CssNumber (toFixed3 (1 - gamma_of s))),
        (b, ''opacity'', CssNumber (toFixed3 (gamma_of s))),
        (a, ''transform'', Translate3dY (- (gamma_of s * 8))),
        (b, ''transform'', Translate3dY (- (gamma_of s * 12)))]
       @ (case bgOverlay pg of None \<Rightarrow> []
          | Some c \<Rightarrow> [(c, ''opacity'', CssNumber (0.08 + gamma_of s * 0.18))]))"
  using assms
  by (cases "bgOverlay pg") (simp_all add: updateVisuals_def setStyle_def Let_def gamma_of_def)



text \<open>
  C10. For a fixed scrollable height above zero, what one recomputation writes is
  monotone in the scroll offset: with \<open>scrollY s1 \<le> scrollY s2\<close>, \<open>gamma\<close> does not
  decrease, the sunrise opacity does not increase, the sunset opacity and the overlay
  opacity do not decrease, and the two translations \<open>-(gamma * 8)\<close> and \<open>-(gamma * 12)\<close>
  do not increase (they move one way, towards more negative offsets), so their absolute
  values do not decrease.
\<close>

theorem updateVisuals_monotone:
  assumes "0 < docHeight s1" "docHeight s2 = docHeight s1" "scrollY s1 \<le> scrollY s2"
    and "sunrise pg = Some a" "sunset pg = Some b"
  shows "gamma_of s1 \<le> gamma_of s2
    \<and> updateVisuals pg s1 =
        Some (s1\<lparr>ticking := False\<rparr>,
          [(a, ''opacity'', CssNumber (toFixed3 (1 - gamma_of s1))),
           (b, ''opacity'', CssNumber (toFixed3 (gamma_of s1))),
           (a, ''transform'', Translate3dY (- (gamma_of s1 * 8))),
           (b, ''transform'', Translate3dY (- (gamma_of s1 * 12)))]
          @ (case bgOverlay pg of None \<Rightarrow> []
             | Some c \<Rightarrow> [(c, ''opacity'', CssNumber (0.08 + gamma_of s1 * 0.18))]))
    \<and> updateVisuals pg s2 =
        Some (s2\<lparr>ticking := False\<rparr>,
          [(a, ''opacity'', CssNumber (toFixed3 (1 - gamma_of s2))),
           (b, ''opacity'', CssNumber (toFixed3 (gamma_of s2))),
           (a, ''transform'', Translate3dY (- (gamma_of s2 * 8))),
           (b, ''transform'', Translate3dY (- (gamma_of s2 * 12)))]
          @ (case bgOverlay pg of None \<Rightarrow> []
             | Some c \<Rightarrow> [(c, ''opacity'', CssNumber (0.08 + gamma_of s2 * 0.18))]))
    \<and> toFixed3 (1 - gamma_of s2) \<le> toFixed3 (1 - gamma_of s1)
    \<and> toFixed3 (gamma_of s1) \<le> toFixed3 (gamma_of s2)
    \<and> 0.08 + gamma_of s1 * 0.18 \<le> 0.08 + gamma_of s2 * 0.18
    \<and> - (gamma_of s2 * 8) \<le> - (gamma_of s1 * 8)
    \<and> - (gamma_of s2 * 12) \<le> - (gamma_of s1 * 12)
    \<and> \<bar>- (gamma_of s1 * 8)\<bar> \<le> \<bar>- (gamma_of s2 * 8)\<bar>
    \<and> \<bar>- (gamma_of s1 * 12)\<bar> \<le> \<bar>- (gamma_of s2 * 12)\<bar>"
proof -
  have m: "gamma_of s1 \<le> gamma_of s2"
    using assms(1-3) by (rule gamma_of_mono)
  note r1 = gamma_of_range[of s1] and r2 = gamma_of_range[of s2]
  have h2: "0 < docHeight s2" using assms(1,2) by simp
  have w1: "updateVisuals pg s1 = Some (s1\<lparr>ticking := False\<rparr>,
          [(a, ''opacity'', CssNumber (toFixed3 (1 - gamma_of s1))),
           (b, ''opacity'', CssNumber (toFixed3 (gamma_of s1))),
           (a, ''transform'', Translate3dY (- (gamma_of s1 * 8))),
           (b, ''transform'', Translate3dY (- (gamma_of s1 * 12)))]
          @ (case bgOverlay pg of None \<Rightarrow> []
             | Some c \<Rightarrow> [(c, ''opacity'', CssNumber (0.08 + gamma_of s1 * 0.18))]))"
    using assms(1,4,5) by (rule updateVisuals_writes)
  have w2: "updateVisuals pg s2 = Some (s2\<lparr>ticking := False\<rparr>,
          [(a, ''opacity'', CssNumber (toFixed3 (1 - gamma_of s2))),
           (b, ''opacity'', CssNumber (toFixed3 (gamma_of s2))),
           (a, ''transform'', Translate3dY (- (gamma_of s2 * 8))),
           (b, ''transform'', Translate3dY (- (gamma_of s2 * 12)))]
          @ (case bgOverlay pg of None \<Rightarrow> []
             | Some c \<Rightarrow> [(c, ''opacity'', CssNumber (0.08 + gamma_of s2 * 0.18))]))"
    using h2 assms(4,5) by (rule updateVisuals_writes)
  have a1: "toFixed3 (1 - gamma_of s2) \<le> toFixed3 (1 - gamma_of s1)"
    using m r1 r2 by (intro toFixed3_mono) auto
  have b1: "toFixed3 (gamma_of s1) \<le> toFixed3 (gamma_of s2)"
    using m r1 r2 by (intro toFixed3_mono) auto
  have rest: "0.08 + gamma_of s1 * 0.18 \<le> 0.08 + gamma_of s2 * 0.18
    \<and> - (gamma_of s2 * 8) \<le> - (gamma_of s1 * 8)
    \<and> - (gamma_of s2 * 12) \<le> - (gamma_of s1 * 12)
    \<and> \<bar>- (gamma_of s1 * 8)\<bar> \<le> \<bar>- (gamma_of s2 * 8)\<bar>
    \<and> \<bar>- (gamma_of s1 * 12)\<bar> \<le> \<bar>- (gamma_of s2 * 12)\<bar>"
    using m r1 r2 by auto
  show ?thesis
    using m w1 w2 a1 b1 rest by blast
qed

theorem updateVisuals_monotone_witness:
  "gamma_of \<lparr>scrollY = 0, docHeight = 2000, ticking = True\<rparr>
     \<le> gamma_of \<lparr>scrollY = 2000, docHeight = 2000, ticking = True\<rparr>
   \<and> toFixed3 (1 - gamma_of \<lparr>scrollY = 2000, docHeight = 2000, ticking = True\<rparr>)
     \<le> toFixed3 (1 - gamma_of \<lparr>scrollY = 0, docHeight = 2000, ticking = True\<rparr>)
   \<and> toFixed3 (gamma_of \<lparr>scrollY = 0, docHeight = 2000, ticking = True\<rparr>)
     \<le> toFixed3 (gamma_of \<lparr>scrollY = 2000, docHeight = 2000, ticking = True\<rparr>)
   \<and> - (gamma_of \<lparr>scrollY = 2000, docHeight = 2000, ticking = True\<rparr> * 8)
     \<le> - (gamma_of \<lparr>scrollY = 0, docHeight = 2000, ticking = True\<rparr> * 8)"
proof -
  have a: "sunrise example_page = Some 13" "sunset example_page = Some 14"
    by (simp_all add: example_page_def)
  from updateVisuals_monotone[of "\<lparr>scrollY = 0, docHeight = 2000, ticking = True\<rparr>"
      "\<lparr>scrollY = 2000, docHeight = 2000, ticking = True\<rparr>", OF _ _ _ a]
  show ?thesis
    by simp
qed

section \<open>Class lists only grow\<close>

text \<open>No handler of the script removes a class: every task leaves each class list a superset.\<close>

lemma classList_removeLoader: "classList w e \<subseteq> classList (removeLoader pg w) e"
  by (auto simp: removeLoader_def setTimeout_def addClass_def split: option.splits)

lemma classList_settle: "classList w e \<subseteq> classList (settle pg w) e"
proof -
  have "classList (w\<lparr>raceState := RaceSettled\<rparr>) e
          \<subseteq> classList (removeLoader pg (w\<lparr>raceState := RaceSettled\<rparr>)) e"
    by (rule classList_removeLoader)
  then show ?thesis by (simp add: settle_def)
qed

lemma classList_effect: "classList w e \<subseteq> classList (fst (effect pg cb w)) e"
  by (cases cb)
     (auto simp: effect_def addClass_def setTimeout_def moveOrbs_def split: option.splits)

lemma classList_run_callback: "classList w e \<subseteq> classList (run_callback pg cb w) e"
  using classList_effect[of w e pg cb]
  by (cases "effect pg cb w") (simp add: run_callback_def)

lemma classList_fold_callbacks:
  "classList w e \<subseteq> classList (fold (run_callback pg) cbs w) e"
proof (induction cbs arbitrary: w)
  case Nil
  show ?case by simp
next
  case (Cons cb cbs)
  have "classList w e \<subseteq> classList (run_callback pg cb w) e"
    by (rule classList_run_callback)
  also have "\<dots> \<subseteq> classList (fold (run_callback pg) cbs (run_callback pg cb w)) e"
    by (rule Cons.IH)
  finally show ?case by simp
qed

lemma classList_onEntry: "classList w e \<subseteq> classList (onEntry en w) e"
  by (auto simp: onEntry_def addClass_def)

lemma classList_observerCallback: "classList w e \<subseteq> classList (observerCallback ens w) e"
  unfolding observerCallback_def
proof (induction ens arbitrary: w)
  case Nil
  show ?case by simp
next
  case (Cons en ens)
  have "classList w e \<subseteq> classList (onEntry en w) e"
    by (rule classList_onEntry)
  also have "\<dots> \<subseteq> classList (fold onEntry ens (onEntry en w)) e"
    by (rule Cons.IH)
  finally show ?case by simp
qed

lemma classList_handle: "classList w e \<subseteq> classList (handle pg ev w) e"
proof (cases ev)
  case Frame
  have "classList (w\<lparr>rafQueue := []\<rparr>) e
          \<subseteq> classList (fold (run_callback pg) (rafQueue w) (w\<lparr>rafQueue := []\<rparr>)) e"
    by (rule classList_fold_callbacks)
  with Frame show ?thesis by (simp add: handle_def run_frame_def)
next
  case FireTimer
  show ?thesis
  proof (cases "earliest (timers w)")
    case None
    with FireTimer show ?thesis by (simp add: handle_def fire_timer_def)
  next
    case (Some t)
    have "classList (w\<lparr>timers := remove1 t (timers w), now := max (now w) (fst t)\<rparr>) e
          \<subseteq> classList (run_callback pg (snd t)
               (w\<lparr>timers := remove1 t (timers w), now := max (now w) (fst t)\<rparr>)) e"
      by (rule classList_run_callback)
    with FireTimer Some show ?thesis by (simp add: handle_def fire_timer_def)
  qed
next
  case (Intersect ens)
  then show ?thesis
    using classList_observerCallback[of w e ens] by (simp add: handle_def)
qed (auto simp: handle_def onScroll_def onMouseMove_def requestAnimationFrame_def
       resolveImg_def Let_def)

lemma classList_step: "classList w e \<subseteq> classList (step pg ev w) e"
  unfolding step_def
  using classList_handle[of w e pg ev] classList_settle[of "handle pg ev w" e pg] by blast

lemma classList_run: "classList w e \<subseteq> classList (run pg evs w) e"
  unfolding run_def
proof (induction evs arbitrary: w)
  case Nil
  show ?case by simp
next
  case (Cons ev evs)
  have "classList w e \<subseteq> classList (step pg ev w) e"
    by (rule classList_step)
  also have "\<dots> \<subseteq> classList (fold (step pg) evs (step pg ev w)) e"
    by (rule Cons.IH)
  finally show ?case by simp
qed

section \<open>Properties of the page loader\<close>

lemma removeLoader_hidden:
  "pageLoader pg = Some l \<Longrightarrow> ''hidden'' \<in> classList (removeLoader pg w) l"
  by (simp add: removeLoader_def setTimeout_def addClass_def)

lemma removeLoader_noop:
  "pageLoader pg = Some l \<Longrightarrow> ''hidden'' \<in> classList w l \<Longrightarrow> removeLoader pg w = w"
  by (simp add: removeLoader_def)

lemma removeLoader_absent: "pageLoader pg = None \<Longrightarrow> removeLoader pg w = w"
  by (simp add: removeLoader_def)

text \<open>
  C6. Dismissal is idempotent. Calling \<open>removeLoader\<close> twice gives the same world as
  calling it once, and a call after any later sequence of tasks changes nothing either.
  The first call, on an overlay that exists and is not hidden, adds the class \<open>hidden\<close> at
  once and registers one removal, due 900ms later, whose callback removes the overlay
  from the document; on a hidden or missing overlay a call has no effect. Two calls
  register at most one removal.
\<close>

theorem removeLoader_idempotent:
  "removeLoader pg (removeLoader pg w) = removeLoader pg w
   \<and> removeLoader pg (run pg evs (removeLoader pg w)) = run pg evs (removeLoader pg w)
   \<and> removeLoader pg w =
       (case pageLoader pg of
          None \<Rightarrow> w
        | Some l \<Rightarrow>
            if ''hidden'' \<in> classList w l then w
            else w\<lparr>classList := (classList w)(l := insert ''hidden'' (classList w l)),
                   timers := timers w @ [(now w + 900, LoaderRemove)]\<rparr>)
   \<and> length (timers (removeLoader pg (removeLoader pg w))) \<le> length (timers w) + 1
   \<and> effect pg LoaderRemove w =
       (case pageLoader pg of
          None \<Rightarrow> (w, [])
        | Some l \<Rightarrow> (w\<lparr>removed := insert l (removed w)\<rparr>, []))"
proof -
  have later: "removeLoader pg (run pg evs (removeLoader pg w)) = run pg evs (removeLoader pg w)"
  proof (cases "pageLoader pg")
    case None
    then show ?thesis by (rule removeLoader_absent)
  next
    case (Some l)
    have "''hidden'' \<in> classList (removeLoader pg w) l"
      using Some by (rule removeLoader_hidden)
    then have "''hidden'' \<in> classList (run pg evs (removeLoader pg w)) l"
      using classList_run[of "removeLoader pg w" l pg evs] by blast
    with Some show ?thesis by (rule removeLoader_noop)
  qed
  have twice: "removeLoader pg (removeLoader pg w) = removeLoader pg w"
    by (cases "pageLoader pg") (simp_all add: removeLoader_def setTimeout_def addClass_def)
  have first: "removeLoader pg w =
       (case pageLoader pg of
          None \<Rightarrow> w
        | Some l \<Rightarrow>
            if ''hidden'' \<in> classList w l then w
            else w\<lparr>classList := (classList w)(l := insert ''hidden'' (classList w l)),
                   timers := timers w @ [(now w + 900, LoaderRemove)]\<rparr>)"
    by (cases "pageLoader pg") (simp_all add: removeLoader_def setTimeout_def addClass_def)
  have len: "length (timers (removeLoader pg (removeLoader pg w))) \<le> length (timers w) + 1"
    unfolding twice
    by (cases "pageLoader pg") (simp_all add: removeLoader_def setTimeout_def addClass_def)
  have rm: "effect pg LoaderRemove w =
       (case pageLoader pg of
          None \<Rightarrow> (w, [])
        | Some l \<Rightarrow> (w\<lparr>removed := insert l (removed w)\<rparr>, []))"
    by (simp add: effect_def)
  show ?thesis
    using twice later first len rm by blast
qed

section \<open>Properties of the intro sequence\<close>

text \<open>
  C9. With both hero title elements on the page, section 2 of the script, run at the
  start of the handler, changes nothing at once: it requests one animation-frame
  callback and one timer due at 400ms. The frame callback adds the class \<open>visible\<close> to
  the title. The timer, fired at 400ms, writes the background position \<open>120% 0\<close> on the
  title text and registers one further timer, due at 2000ms (400 + 1600); that timer adds
  the class \<open>floaty\<close> to the title text and leaves no timer behind. With either
  element missing the section changes nothing: no callback is requested and no timer
  is started.
\<close>

theorem init_intro_sequence:
  "((titleEl pg = None \<or> titleText pg = None) \<longrightarrow> init_intro pg w = w)
   \<and> (titleEl pg = Some t \<and> titleText pg = Some tt \<longrightarrow>
        init_intro pg (world0 pg)
          = (world0 pg)\<lparr>rafQueue := [TitleVisible], timers := [(400, Shimmer)]\<rparr>
      \<and> run_frame pg (init_intro pg (world0 pg))
          = (world0 pg)\<lparr>timers := [(400, Shimmer)],
              classList := (htmlClasses pg)(t := insert ''visible'' (htmlClasses pg t)),
              journal := [(TitleVisible, [])]\<rparr>
      \<and> fire_timer pg (init_intro pg (world0 pg))
          = (world0 pg)\<lparr>rafQueue := [TitleVisible], now := 400, timers := [(2000, Floaty)],
              journal := [(Shimmer, [(tt, ''backgroundPosition'', CssText ''120% 0'')])]\<rparr>
      \<and> fire_timer pg (fire_timer pg (init_intro pg (world0 pg)))
          = (world0 pg)\<lparr>rafQueue := [TitleVisible], now := 2000, timers := [],
              classList := (htmlClasses pg)(tt := insert ''floaty'' (htmlClasses pg tt)),
              journal := [(Shimmer, [(tt, ''backgroundPosition'', CssText ''120% 0'')]),
                          (Floaty, [])]\<rparr>)"
  by (simp add: init_intro_def world0_def setTimeout_def requestAnimationFrame_def
        run_frame_def fire_timer_def run_callback_def effect_def addClass_def)


theorem init_intro_sequence_witness:
  "init_intro bare_page (world0 bare_page) = world0 bare_page
   \<and> rafQueue (init_intro example_page (world0 example_page)) = [TitleVisible]
   \<and> timers (init_intro example_page (world0 example_page)) = [(400, Shimmer)]
   \<and> ''visible'' \<in> classList (run_frame example_page
         (init_intro example_page (world0 example_page))) 10
   \<and> now (fire_timer example_page (init_intro example_page (world0 example_page))) = 400
   \<and> timers (fire_timer example_page (init_intro example_page (world0 example_page)))
       = [(2000, Floaty)]
   \<and> now (fire_timer example_page (fire_timer example_page
         (init_intro example_page (world0 example_page)))) = 2000
   \<and> ''floaty'' \<in> classList (fire_timer example_page (fire_timer example_page
         (init_intro example_page (world0 example_page)))) 11"
proof -
  have a: "titleEl bare_page = None \<or> titleText bare_page = None"
    and b: "titleEl example_page = Some 10 \<and> titleText example_page = Some 11"
    by (simp_all add: bare_page_def example_page_def)
  have c: "htmlClasses example_page = (\<lambda>_. {})"
    by (simp add: example_page_def)
  note absent = init_intro_sequence[of bare_page "world0 bare_page", THEN conjunct1,
      rule_format, OF a]
  note present = init_intro_sequence[of example_page "world0 example_page" 10 11,
      THEN conjunct2, rule_format, OF b]
  note e1 = present[THEN conjunct1]
  note e2 = present[THEN conjunct2, THEN conjunct1, unfolded e1]
  note e3 = present[THEN conjunct2, THEN conjunct2, THEN conjunct1, unfolded e1]
  note e4 = present[THEN conjunct2, THEN conjunct2, THEN conjunct2, unfolded e1 e3]
  show ?thesis
    by (simp add: absent e1 e2 e3 e4 c)
qed

section \<open>Properties of the reveal observer\<close>

lemma revealed_onEntry:
  "revealed e (onEntry en w) = (revealed e w \<or> en = (e, True))"
  by (cases en) (auto simp: revealed_def onEntry_def addClass_def)

lemma observed_onEntry:
  "(e \<in> observed (onEntry en w)) = (e \<in> observed w \<and> en \<noteq> (e, True))"
  by (cases en) (auto simp: onEntry_def addClass_def)

lemma revealed_observerCallback:
  "revealed e (observerCallback ens w) = (revealed e w \<or> (e, True) \<in> set ens)"
  unfolding observerCallback_def
  by (induction ens arbitrary: w) (auto simp: revealed_onEntry)

lemma observed_observerCallback:
  "(e \<in> observed (observerCallback ens w)) = (e \<in> observed w \<and> (e, True) \<notin> set ens)"
  unfolding observerCallback_def
  by (induction ens arbitrary: w) (auto simp: observed_onEntry)

lemma reveal_changes_eq:
  "reveal_changes e ens w = (if \<not> revealed e w \<and> (e, True) \<in> set ens then 1 else 0)"
  by (induction ens arbitrary: w) (auto simp: revealed_onEntry)

lemma observed_removeLoader: "observed (removeLoader pg w) = observed w"
  by (simp add: removeLoader_def setTimeout_def addClass_def split: option.splits)

lemma observed_settle: "observed (settle pg w) = observed w"
  by (simp add: settle_def observed_removeLoader)

lemma observed_effect: "observed (fst (effect pg cb w)) = observed w"
  by (cases cb)
     (auto simp: effect_def addClass_def setTimeout_def moveOrbs_def split: option.splits)

lemma observed_run_callback: "observed (run_callback pg cb w) = observed w"
  using observed_effect[of pg cb w]
  by (cases "effect pg cb w") (simp add: run_callback_def)

lemma observed_fold_callbacks: "observed (fold (run_callback pg) cbs w) = observed w"
  by (induction cbs arbitrary: w) (simp_all add: observed_run_callback)

lemma observed_handle: "observed (handle pg ev w) \<subseteq> observed w"
proof (cases ev)
  case (Intersect ens)
  then show ?thesis
    using observed_observerCallback[of _ ens w] by (auto simp: handle_def)
qed (auto simp: handle_def onScroll_def onMouseMove_def requestAnimationFrame_def
       resolveImg_def Let_def run_frame_def fire_timer_def observed_fold_callbacks
       observed_run_callback split: option.splits)

lemma observed_step: "observed (step pg ev w) \<subseteq> observed w"
  unfolding step_def using observed_handle[of pg ev w] by (simp add: observed_settle)

lemma observed_run: "observed (run pg evs w) \<subseteq> observed w"
  unfolding run_def
proof (induction evs arbitrary: w)
  case Nil
  show ?case by simp
next
  case (Cons ev evs)
  have "observed (fold (step pg) evs (step pg ev w)) \<subseteq> observed (step pg ev w)"
    by (rule Cons.IH)
  also have "\<dots> \<subseteq> observed w"
    by (rule observed_step)
  finally show ?case by simp
qed

lemma init_observes:
  "e \<in> set (revealTargets pg) \<Longrightarrow> observer (init pg) \<and> e \<in> observed (init pg)"
proof -
  assume e: "e \<in> set (revealTargets pg)"
  then have ne: "length (revealTargets pg) > 0" by (cases "revealTargets pg") auto
  have "observer (settle pg u) = observer u" for u
    by (simp add: settle_def removeLoader_def setTimeout_def addClass_def split: option.splits)
  moreover have "observed (settle pg u) = observed u" for u
    by (rule observed_settle)
  ultimately show ?thesis
    using e ne by (simp add: init_def init_pointer_def init_reveal_def)
qed

text \<open>
  C8. Every reveal target is observed after initialisation. After the observer callback
  has processed a sequence of entries, an element is revealed exactly if it was revealed
  before or the sequence holds an intersecting entry for it, and it is observed exactly
  if it was observed before and the sequence holds no intersecting entry for it: the
  first intersecting entry marks it visible and ends its observation. Along any sequence
  of entries the revealed state of an element changes once if the element starts
  unrevealed and some entry for it is intersecting, and never otherwise. No later task
  of any kind un-reveals a revealed element or makes an unobserved element observed.
\<close>

theorem reveal_once:
  "(e \<in> set (revealTargets pg) \<longrightarrow> observer (init pg) \<and> e \<in> observed (init pg))
   \<and> revealed e (observerCallback ens w) = (revealed e w \<or> (e, True) \<in> set ens)
   \<and> (e \<in> observed (observerCallback ens w)) = (e \<in> observed w \<and> (e, True) \<notin> set ens)
   \<and> reveal_changes e ens w = (if \<not> revealed e w \<and> (e, True) \<in> set ens then 1 else 0)
   \<and> (revealed e w \<longrightarrow> revealed e (run pg evs w))
   \<and> (e \<notin> observed w \<longrightarrow> e \<notin> observed (run pg evs w))"
  using init_observes[of e pg] revealed_observerCallback[of e ens w]
    observed_observerCallback[of e ens w] reveal_changes_eq[of e ens w]
    classList_run[of w e pg evs] observed_run[of pg evs w]
  unfolding revealed_def by blast


theorem reveal_once_witness:
  "observer (init example_page) \<and> 16 \<in> observed (init example_page)
   \<and> reveal_changes 16 [(16, False), (16, True), (16, False), (16, True)] (init example_page) = 1
   \<and> revealed 16 (run example_page [Intersect [(16, False)], Frame]
         (observerCallback [(16, True)] (init example_page)))
   \<and> 16 \<notin> observed (run example_page [Intersect [(16, False)], Frame]
         (observerCallback [(16, True)] (init example_page)))"
proof -
  have r: "\<not> revealed 16 (init example_page)" 
    by (simp add: revealed_def init_def init_pointer_def init_reveal_def init_scroll_def init_loader_def init_intro_def world0_def
     example_page_def settle_def setTimeout_def requestAnimationFrame_def run_callback_def effect_def
     updateVisuals_def setStyle_def clamp_def)
  show ?thesis
  using reveal_once[of 16 example_page "[(16, False), (16, True), (16, False), (16, True)]"
      "init example_page"]
    reveal_once[of 16 example_page "[(16, True)]" "init example_page"
      "[Intersect [(16, False)], Frame]"]
    reveal_once[of 16 example_page "[]" "observerCallback [(16, True)] (init example_page)"
      "[Intersect [(16, False)], Frame]"] r
  by (simp add: example_page_def)
qed

section \<open>What callbacks and tasks leave alone\<close>

lemma updateVisuals_state: "\<exists>ws. updateVisuals pg s = Some (s\<lparr>ticking := False\<rparr>, ws)"
  by (cases "sunrise pg"; cases "sunset pg"; cases "bgOverlay pg")
     (simp_all add: updateVisuals_def setStyle_def Let_def)

lemma removeLoader_keeps:
  "st (removeLoader pg w) = st w" "rafQueue (removeLoader pg w) = rafQueue w"
  "scrollListener (removeLoader pg w) = scrollListener w"
  "journal (removeLoader pg w) = journal w"
  "mouseTicking (removeLoader pg w) = mouseTicking w"
  "mouseListener (removeLoader pg w) = mouseListener w"
  "rect (removeLoader pg w) = rect w"
  by (simp_all add: removeLoader_def setTimeout_def addClass_def split: option.splits)

lemma removeLoader_timers:
  "snd ` set (timers (removeLoader pg w)) \<subseteq> insert LoaderRemove (snd ` set (timers w))"
  by (auto simp: removeLoader_def setTimeout_def addClass_def split: option.splits)

lemma settle_keeps:
  "st (settle pg w) = st w" "rafQueue (settle pg w) = rafQueue w"
  "scrollListener (settle pg w) = scrollListener w"
  "journal (settle pg w) = journal w"
  "mouseTicking (settle pg w) = mouseTicking w"
  "mouseListener (settle pg w) = mouseListener w"
  "rect (settle pg w) = rect w"
  by (simp_all add: settle_def removeLoader_keeps)

lemma settle_timers:
  "snd ` set (timers (settle pg w)) \<subseteq> insert LoaderRemove (snd ` set (timers w))"
  using removeLoader_timers[of pg "w\<lparr>raceState := RaceSettled\<rparr>"]
  by (auto simp: settle_def)

lemma recomputations_settle: "recomputations (settle pg w) = recomputations w"
  by (simp add: recomputations_def settle_keeps)

lemma engine_inv_settle: "engine_inv pg w \<Longrightarrow> engine_inv pg (settle pg w)"
  using settle_timers[of pg w] by (auto simp: engine_inv_def settle_keeps)

lemma effect_other:
  assumes "cb \<noteq> UpdateVisuals"
  shows "st (fst (effect pg cb w)) = st w"
  using assms
  by (cases cb) (auto simp: effect_def addClass_def setTimeout_def moveOrbs_def split: option.splits)

lemma effect_keeps:
  "rafQueue (fst (effect pg cb w)) = rafQueue w"
  "scrollListener (fst (effect pg cb w)) = scrollListener w"
  "journal (fst (effect pg cb w)) = journal w"
  by (cases cb; auto simp: effect_def addClass_def setTimeout_def moveOrbs_def split: option.splits)+

lemma effect_timers:
  "snd ` set (timers (fst (effect pg cb w))) \<subseteq> insert Floaty (snd ` set (timers w))"
  by (cases cb) (auto simp: effect_def addClass_def setTimeout_def moveOrbs_def split: option.splits)

lemma run_callback_keeps:
  "rafQueue (run_callback pg cb w) = rafQueue w"
  "scrollListener (run_callback pg cb w) = scrollListener w"
  "journal (run_callback pg cb w) = journal w @ [(cb, snd (effect pg cb w))]"
  "timers (run_callback pg cb w) = timers (fst (effect pg cb w))"
  "st (run_callback pg cb w) = st (fst (effect pg cb w))"
  using effect_keeps[of pg cb w]
  by (cases "effect pg cb w"; simp add: run_callback_def)+

lemma run_callback_other:
  assumes "cb \<noteq> UpdateVisuals"
  shows "st (run_callback pg cb w) = st w"
    and "recomputations (run_callback pg cb w) = recomputations w"
  using assms effect_other[OF assms, of pg w]
  by (simp_all add: run_callback_keeps recomputations_def)

lemma run_callback_UpdateVisuals:
  "st (run_callback pg UpdateVisuals w) = (st w)\<lparr>ticking := False\<rparr>
   \<and> updateVisuals pg (st w) = Some ((st w)\<lparr>ticking := False\<rparr>, snd (effect pg UpdateVisuals w))
   \<and> recomputations (run_callback pg UpdateVisuals w)
       = recomputations w @ [snd (effect pg UpdateVisuals w)]"
proof -
  obtain ws where u: "updateVisuals pg (st w) = Some ((st w)\<lparr>ticking := False\<rparr>, ws)"
    using updateVisuals_state[of pg "st w"] by blast
  then show ?thesis
    by (simp add: run_callback_def effect_def recomputations_def)
qed

lemma run_callback_timers:
  "UpdateVisuals \<notin> snd ` set (timers w) \<Longrightarrow>
   UpdateVisuals \<notin> snd ` set (timers (run_callback pg cb w))"
  using effect_timers[of pg cb w] by (auto simp: run_callback_keeps)

lemma fold_callbacks_keeps:
  "rafQueue (fold (run_callback pg) q w) = rafQueue w
   \<and> scrollListener (fold (run_callback pg) q w) = scrollListener w"
  by (induction q arbitrary: w) (simp_all add: run_callback_keeps)

lemma fold_callbacks_timers:
  "UpdateVisuals \<notin> snd ` set (timers w) \<Longrightarrow>
   UpdateVisuals \<notin> snd ` set (timers (fold (run_callback pg) q w))"
  by (induction q arbitrary: w) (simp_all add: run_callback_timers)

lemma fold_callbacks_other:
  "UpdateVisuals \<notin> set q \<Longrightarrow>
   st (fold (run_callback pg) q w) = st w
   \<and> recomputations (fold (run_callback pg) q w) = recomputations w"
proof (induction q arbitrary: w)
  case Nil
  show ?case by simp
next
  case (Cons cb q)
  then have ne: "cb \<noteq> UpdateVisuals" and nq: "UpdateVisuals \<notin> set q" by auto
  show ?case
    using Cons.IH[OF nq, of "run_callback pg cb w"] run_callback_other[OF ne, of pg w]
    by simp
qed

lemma count_one_split:
  "count_list q x = 1 \<Longrightarrow> \<exists>q1 q2. q = q1 @ x # q2 \<and> x \<notin> set q1 \<and> x \<notin> set q2"
proof (induction q)
  case Nil
  then show ?case by simp
next
  case (Cons y q)
  show ?case
  proof (cases "y = x")
    case True
    with Cons.prems have "count_list q x = 0" by simp
    then have "x \<notin> set q" by (simp add: count_list_0_iff)
    with True have "y # q = [] @ x # q \<and> x \<notin> set [] \<and> x \<notin> set q" by simp
    then show ?thesis by blast
  next
    case False
    with Cons.prems have "count_list q x = 1" by simp
    then obtain q1 q2 where "q = q1 @ x # q2" "x \<notin> set q1" "x \<notin> set q2"
      using Cons.IH by blast
    with False have "y # q = (y # q1) @ x # q2 \<and> x \<notin> set (y # q1) \<and> x \<notin> set q2" by simp
    then show ?thesis by blast
  qed
qed

lemma fold_callbacks_once:
  assumes "count_list q UpdateVisuals = 1"
  shows "\<exists>ws. updateVisuals pg (st w) = Some ((st w)\<lparr>ticking := False\<rparr>, ws)
     \<and> st (fold (run_callback pg) q w) = (st w)\<lparr>ticking := False\<rparr>
     \<and> recomputations (fold (run_callback pg) q w) = recomputations w @ [ws]"
proof -
  obtain q1 q2 where q: "q = q1 @ UpdateVisuals # q2"
    and n1: "UpdateVisuals \<notin> set q1" and n2: "UpdateVisuals \<notin> set q2"
    using count_one_split[OF assms] by blast
  define w1 where "w1 = fold (run_callback pg) q1 w"
  define w2 where "w2 = run_callback pg UpdateVisuals w1"
  have f: "fold (run_callback pg) q w = fold (run_callback pg) q2 w2"
    by (simp add: q w1_def w2_def)
  have s1: "st w1 = st w" and r1: "recomputations w1 = recomputations w"
    using fold_callbacks_other[OF n1, of pg w] by (simp_all add: w1_def)
  note u = run_callback_UpdateVisuals[of pg w1, folded w2_def, unfolded s1 r1]
  have s2: "st (fold (run_callback pg) q2 w2) = st w2"
    and r2: "recomputations (fold (run_callback pg) q2 w2) = recomputations w2"
    using fold_callbacks_other[OF n2, of pg w2] by simp_all
  show ?thesis
    using u by (auto simp: f s2 r2)
qed

section \<open>The scroll engine between tasks\<close>

lemma earliest_mem: "earliest ts = Some t \<Longrightarrow> t \<in> set ts"
  by (induction ts arbitrary: t) (auto split: option.splits if_splits)

lemma observerCallback_keeps:
  "st (observerCallback ens w) = st w \<and> rafQueue (observerCallback ens w) = rafQueue w
   \<and> scrollListener (observerCallback ens w) = scrollListener w
   \<and> timers (observerCallback ens w) = timers w
   \<and> journal (observerCallback ens w) = journal w"
  unfolding observerCallback_def
  by (induction ens arbitrary: w) (simp_all add: onEntry_def addClass_def)

lemma handle_frame:
  assumes "engine_inv pg w"
  shows "engine_inv pg (run_frame pg w)"
    and "ticking (st w) \<Longrightarrow>
       \<exists>ws. updateVisuals pg (st w) = Some ((st w)\<lparr>ticking := False\<rparr>, ws)
         \<and> st (run_frame pg w) = (st w)\<lparr>ticking := False\<rparr>
         \<and> recomputations (run_frame pg w) = recomputations w @ [ws]"
    and "\<not> ticking (st w) \<Longrightarrow>
       st (run_frame pg w) = st w \<and> recomputations (run_frame pg w) = recomputations w"
proof -
  define w0 where "w0 = w\<lparr>rafQueue := []\<rparr>"
  have rf: "run_frame pg w = fold (run_callback pg) (rafQueue w) w0"
    by (simp add: run_frame_def w0_def)
  have w0: "st w0 = st w" "recomputations w0 = recomputations w" "rafQueue w0 = []"
    "scrollListener w0 = scrollListener w" "timers w0 = timers w"
    by (simp_all add: w0_def recomputations_def)
  have t: "UpdateVisuals \<notin> snd ` set (timers (run_frame pg w))"
    unfolding rf using assms fold_callbacks_timers[of w0 pg "rafQueue w"]
    by (simp add: engine_inv_def w0)
  have k: "rafQueue (run_frame pg w) = [] \<and> scrollListener (run_frame pg w) = scrollListener w"
    unfolding rf using fold_callbacks_keeps[of pg "rafQueue w" w0] by (simp add: w0)
  show a: "ticking (st w) \<Longrightarrow>
       \<exists>ws. updateVisuals pg (st w) = Some ((st w)\<lparr>ticking := False\<rparr>, ws)
         \<and> st (run_frame pg w) = (st w)\<lparr>ticking := False\<rparr>
         \<and> recomputations (run_frame pg w) = recomputations w @ [ws]"
  proof -
    assume "ticking (st w)"
    with assms have "count_list (rafQueue w) UpdateVisuals = 1"
      by (simp add: engine_inv_def)
    from fold_callbacks_once[OF this, of pg w0] show ?thesis
      by (simp add: rf w0)
  qed
  show b: "\<not> ticking (st w) \<Longrightarrow>
       st (run_frame pg w) = st w \<and> recomputations (run_frame pg w) = recomputations w"
  proof -
    assume "\<not> ticking (st w)"
    with assms have "count_list (rafQueue w) UpdateVisuals = 0"
      by (simp add: engine_inv_def)
    then have "UpdateVisuals \<notin> set (rafQueue w)"
      by (simp add: count_list_0_iff)
    from fold_callbacks_other[OF this, of pg w0] show ?thesis
      by (simp add: rf w0)
  qed
  have "\<not> ticking (st (run_frame pg w))"
    using a b by (cases "ticking (st w)") auto
  with t k assms show "engine_inv pg (run_frame pg w)"
    by (simp add: engine_inv_def)
qed

lemma handle_timer:
  assumes "engine_inv pg w"
  shows "engine_inv pg (fire_timer pg w) \<and> st (fire_timer pg w) = st w
     \<and> recomputations (fire_timer pg w) = recomputations w"
proof (cases "earliest (timers w)")
  case None
  with assms show ?thesis by (simp add: fire_timer_def)
next
  case (Some t)
  define w0 where "w0 = w\<lparr>timers := remove1 t (timers w), now := max (now w) (fst t)\<rparr>"
  have ft: "fire_timer pg w = run_callback pg (snd t) w0"
    using Some by (simp add: fire_timer_def w0_def)
  have "t \<in> set (timers w)" using Some by (rule earliest_mem)
  moreover from assms have "UpdateVisuals \<notin> snd ` set (timers w)"
    by (simp add: engine_inv_def)
  ultimately have ne: "snd t \<noteq> UpdateVisuals"
    by force
  have "set (timers w0) \<subseteq> set (timers w)"
    using set_remove1_subset[of t "timers w"] by (simp add: w0_def)
  with assms have t0: "UpdateVisuals \<notin> snd ` set (timers w0)"
    by (auto simp: engine_inv_def)
  have w0: "st w0 = st w" "recomputations w0 = recomputations w" "rafQueue w0 = rafQueue w"
    "scrollListener w0 = scrollListener w"
    by (simp_all add: w0_def recomputations_def)
  show ?thesis
    using assms run_callback_other[OF ne, of pg w0] run_callback_timers[OF t0, of pg "snd t"]
    by (simp add: ft run_callback_keeps(1,2) w0 engine_inv_def)
qed

lemma handle_scroll:
  assumes "engine_inv pg w"
  shows "engine_inv pg (onScroll y w) \<and> st (onScroll y w) = (st w)\<lparr>scrollY := y, ticking := True\<rparr>
     \<and> recomputations (onScroll y w) = recomputations w"
  using assms
  by (cases "ticking (st w)")
     (simp_all add: engine_inv_def onScroll_def Let_def requestAnimationFrame_def
        recomputations_def)

lemma engine_inv_handle:
  assumes "engine_inv pg w"
  shows "engine_inv pg (handle pg ev w)"
proof (cases ev)
  case (Scroll y)
  with assms handle_scroll[OF assms, of y] show ?thesis by (simp add: handle_def)
next
  case Frame
  with handle_frame(1)[OF assms] show ?thesis by (simp add: handle_def)
next
  case FireTimer
  with handle_timer[OF assms] show ?thesis by (simp add: handle_def)
next
  case (Intersect ens)
  with assms show ?thesis
    by (simp add: handle_def engine_inv_def observerCallback_keeps)
qed (use assms in \<open>simp_all add: handle_def engine_inv_def onMouseMove_def
       requestAnimationFrame_def resolveImg_def\<close>)

lemma engine_inv_step: "engine_inv pg w \<Longrightarrow> engine_inv pg (step pg ev w)"
  unfolding step_def by (intro engine_inv_settle engine_inv_handle)

lemma engine_inv_run: "engine_inv pg w \<Longrightarrow> engine_inv pg (run pg evs w)"
  unfolding run_def by (induction evs arbitrary: w) (simp_all add: engine_inv_step)

lemma step_scroll:
  assumes "engine_inv pg w" "scrollListener w"
  shows "st (step pg (Scroll y) w) = (st w)\<lparr>scrollY := y, ticking := True\<rparr>
     \<and> recomputations (step pg (Scroll y) w) = recomputations w"
  using assms handle_scroll[OF assms(1), of y]
  by (simp add: step_def handle_def settle_keeps recomputations_settle)

lemma run_scrolls:
  assumes "engine_inv pg w" "scrollListener w" "ys \<noteq> []"
  shows "st (run pg (map Scroll ys) w) = (st w)\<lparr>scrollY := last ys, ticking := True\<rparr>
     \<and> recomputations (run pg (map Scroll ys) w) = recomputations w"
  using assms
proof (induction ys arbitrary: w)
  case Nil
  then show ?case by simp
next
  case (Cons y ys)
  define w1 where "w1 = step pg (Scroll y) w"
  have i1: "engine_inv pg w1"
    unfolding w1_def using Cons.prems(1) by (rule engine_inv_step)
  have l1: "scrollListener w1"
    using i1 Cons.prems(1,2) by (simp add: engine_inv_def)
  note s1 = step_scroll[OF Cons.prems(1,2), of y, folded w1_def]
  show ?case
  proof (cases "ys = []")
    case True
    with s1 show ?thesis by (simp add: run_def w1_def)
  next
    case False
    from Cons.IH[OF i1 l1 False] s1 False show ?thesis
      by (simp add: run_def w1_def)
  qed
qed

lemma init_loader_keeps:
  "st (init_loader pg w) = st w" "rafQueue (init_loader pg w) = rafQueue w"
  "scrollListener (init_loader pg w) = scrollListener w"
  "journal (init_loader pg w) = journal w"
  by (simp_all add: init_loader_def removeLoader_keeps setTimeout_def)

lemma init_loader_timers:
  "snd ` set (timers (init_loader pg w))
     \<subseteq> insert LoaderRemove (insert RaceTimeout (snd ` set (timers w)))"
  using removeLoader_timers[of pg w]
  by (auto simp: init_loader_def setTimeout_def)

lemma init_scroll_world:
  "\<exists>ws. updateVisuals pg (st w) = Some ((st w)\<lparr>ticking := False\<rparr>, ws)
     \<and> init_scroll pg w =
        (if sunrise pg \<noteq> None \<and> sunset pg \<noteq> None
         then w\<lparr>scrollListener := True, st := (st w)\<lparr>ticking := False\<rparr>,
                journal := journal w @ [(UpdateVisuals, ws)]\<rparr>
         else w)"
proof -
  obtain ws where u: "updateVisuals pg (st w) = Some ((st w)\<lparr>ticking := False\<rparr>, ws)"
    using updateVisuals_state[of pg "st w"] by blast
  then show ?thesis
    by (simp add: init_scroll_def run_callback_def effect_def)
qed

lemma init_world:
  "\<exists>ws. updateVisuals pg (st (world0 pg)) = Some (st (world0 pg), ws)
     \<and> st (init pg) = st (world0 pg)
     \<and> scrollListener (init pg) = (sunrise pg \<noteq> None \<and> sunset pg \<noteq> None)
     \<and> journal (init pg) =
         (if sunrise pg \<noteq> None \<and> sunset pg \<noteq> None then [(UpdateVisuals, ws)] else [])
     \<and> engine_inv pg (init pg)"
proof -
  define w2 where "w2 = init_loader pg (init_intro pg (world0 pg))"
  have f: "st w2 = st (world0 pg)" "journal w2 = []" "\<not> scrollListener w2"
    "rafQueue w2 = rafQueue (init_intro pg (world0 pg))"
    by (simp_all add: w2_def init_loader_keeps init_intro_def world0_def setTimeout_def
          requestAnimationFrame_def)
  have q: "count_list (rafQueue w2) UpdateVisuals = 0"
    by (simp add: f init_intro_def world0_def setTimeout_def requestAnimationFrame_def)
  have "snd ` set (timers (init_intro pg (world0 pg))) \<subseteq> {Shimmer}"
    by (simp add: init_intro_def world0_def setTimeout_def requestAnimationFrame_def)
  with init_loader_timers[of pg "init_intro pg (world0 pg)"]
  have t: "UpdateVisuals \<notin> snd ` set (timers w2)"
    unfolding w2_def by fastforce
  have nt: "(st (world0 pg))\<lparr>ticking := False\<rparr> = st (world0 pg)"
    by (simp add: world0_def)
  obtain ws where u: "updateVisuals pg (st w2) = Some ((st w2)\<lparr>ticking := False\<rparr>, ws)"
    and i: "init_scroll pg w2 =
        (if sunrise pg \<noteq> None \<and> sunset pg \<noteq> None
         then w2\<lparr>scrollListener := True, st := (st w2)\<lparr>ticking := False\<rparr>,
                journal := journal w2 @ [(UpdateVisuals, ws)]\<rparr>
         else w2)"
    using init_scroll_world[of pg w2] by blast
  define w3 where "w3 = init_scroll pg w2"
  have g: "st w3 = st (world0 pg)"
    "scrollListener w3 = (sunrise pg \<noteq> None \<and> sunset pg \<noteq> None)"
    "journal w3 = (if sunrise pg \<noteq> None \<and> sunset pg \<noteq> None then [(UpdateVisuals, ws)] else [])"
    "rafQueue w3 = rafQueue w2" "timers w3 = timers w2"
    unfolding w3_def i by (simp_all add: f nt)
  have e3: "engine_inv pg w3"
    using q t by (simp add: engine_inv_def g world0_def)
  define w5 where "w5 = init_pointer pg (init_reveal pg w3)"
  have h: "st w5 = st w3" "scrollListener w5 = scrollListener w3" "journal w5 = journal w3"
    "rafQueue w5 = rafQueue w3" "timers w5 = timers w3"
    by (simp_all add: w5_def init_pointer_def init_reveal_def)
  have e5: "engine_inv pg w5"
    using e3 by (simp add: engine_inv_def h)
  have ini: "init pg = settle pg w5"
    by (simp add: init_def w5_def w3_def w2_def)
  have "engine_inv pg (init pg)"
    unfolding ini using e5 by (rule engine_inv_settle)
  then show ?thesis
    using u by (auto simp: ini settle_keeps h g f nt)
qed

lemma idle_step:
  assumes "engine_inv pg w" "\<not> scrollListener w" "\<not> ticking (st w)"
  shows "\<not> ticking (st (step pg ev w)) \<and> scrollY (st (step pg ev w)) = scrollY (st w)
     \<and> recomputations (step pg ev w) = recomputations w"
proof (cases ev)
  case Frame
  with handle_frame(3)[OF assms(1,3)] assms(3) show ?thesis
    by (simp add: step_def handle_def settle_keeps recomputations_settle)
next
  case FireTimer
  with handle_timer[OF assms(1)] assms(3) show ?thesis
    by (simp add: step_def handle_def settle_keeps recomputations_settle)
next
  case (Intersect ens)
  with assms(3) show ?thesis
    by (simp add: step_def handle_def settle_keeps recomputations_settle
          observerCallback_keeps recomputations_def)
qed (use assms in \<open>simp_all add: step_def handle_def settle_keeps recomputations_settle
       recomputations_def onMouseMove_def requestAnimationFrame_def resolveImg_def\<close>)

lemma idle_run:
  assumes "engine_inv pg w" "\<not> scrollListener w" "\<not> ticking (st w)"
  shows "\<not> scrollListener (run pg evs w) \<and> \<not> ticking (st (run pg evs w))
     \<and> UpdateVisuals \<notin> set (rafQueue (run pg evs w))
     \<and> scrollY (st (run pg evs w)) = scrollY (st w)
     \<and> recomputations (run pg evs w) = recomputations w"
  using assms
proof (induction evs arbitrary: w)
  case Nil
  then have "count_list (rafQueue w) UpdateVisuals = 0"
    by (simp add: engine_inv_def)
  with Nil show ?case by (simp add: run_def count_list_0_iff)
next
  case (Cons ev evs)
  define w1 where "w1 = step pg ev w"
  have i1: "engine_inv pg w1"
    unfolding w1_def using Cons.prems(1) by (rule engine_inv_step)
  have l1: "\<not> scrollListener w1"
    using i1 Cons.prems(1,2) by (simp add: engine_inv_def)
  note s1 = idle_step[OF Cons.prems, of ev, folded w1_def]
  from s1 have t1: "\<not> ticking (st w1)" by simp
  from Cons.IH[OF i1 l1 t1] s1 show ?case
    by (simp add: run_def w1_def)
qed

text \<open>
  C7. With both parallax layers on the page, the handler attaches the scroll listener
  and runs \<open>updateVisuals\<close> once during initialisation, on the state read from the page
  (\<open>window.scrollY\<close> and the scrollable height), before any event: the journal after
  initialisation is that one run. With either layer missing the listener is never
  attached and \<open>updateVisuals\<close> never runs: after initialisation and after any sequence
  of events, no run is in the journal, none is waiting for a frame, the pending flag is
  clear and the cached scroll offset is still the initial one.
\<close>

theorem engine_initial_pass:
  "(sunrise pg \<noteq> None \<and> sunset pg \<noteq> None \<longrightarrow>
      scrollListener (init pg)
      \<and> (\<exists>ws. updateVisuals pg \<lparr>scrollY = winScrollY pg,
                   docHeight = scrollHeight pg - innerHeight pg, ticking = False\<rparr>
                 = Some (\<lparr>scrollY = winScrollY pg,
                   docHeight = scrollHeight pg - innerHeight pg, ticking = False\<rparr>, ws)
             \<and> journal (init pg) = [(UpdateVisuals, ws)]))
   \<and> (sunrise pg = None \<or> sunset pg = None \<longrightarrow>
        \<not> scrollListener (run pg evs (init pg))
        \<and> journal (init pg) = []
        \<and> recomputations (run pg evs (init pg)) = []
        \<and> UpdateVisuals \<notin> set (rafQueue (run pg evs (init pg)))
        \<and> \<not> ticking (st (run pg evs (init pg)))
        \<and> scrollY (st (run pg evs (init pg))) = winScrollY pg)"
proof -
  have s0: "st (world0 pg) = \<lparr>scrollY = winScrollY pg,
       docHeight = scrollHeight pg - innerHeight pg, ticking = False\<rparr>"
    by (simp add: world0_def)
  obtain ws where u: "updateVisuals pg (st (world0 pg)) = Some (st (world0 pg), ws)"
    and s: "st (init pg) = st (world0 pg)"
    and l: "scrollListener (init pg) = (sunrise pg \<noteq> None \<and> sunset pg \<noteq> None)"
    and j: "journal (init pg) =
         (if sunrise pg \<noteq> None \<and> sunset pg \<noteq> None then [(UpdateVisuals, ws)] else [])"
    and e: "engine_inv pg (init pg)"
    using init_world[of pg] by blast
  have present: "sunrise pg \<noteq> None \<and> sunset pg \<noteq> None \<longrightarrow>
      scrollListener (init pg)
      \<and> (\<exists>ws. updateVisuals pg \<lparr>scrollY = winScrollY pg,
                   docHeight = scrollHeight pg - innerHeight pg, ticking = False\<rparr>
                 = Some (\<lparr>scrollY = winScrollY pg,
                   docHeight = scrollHeight pg - innerHeight pg, ticking = False\<rparr>, ws)
             \<and> journal (init pg) = [(UpdateVisuals, ws)])"
    using u l j unfolding s0 by auto
  have absent: "\<not> scrollListener (run pg evs (init pg))
        \<and> journal (init pg) = []
        \<and> recomputations (run pg evs (init pg)) = []
        \<and> UpdateVisuals \<notin> set (rafQueue (run pg evs (init pg)))
        \<and> \<not> ticking (st (run pg evs (init pg)))
        \<and> scrollY (st (run pg evs (init pg))) = winScrollY pg"
    if a: "sunrise pg = None \<or> sunset pg = None"
  proof -
    from a l have nl: "\<not> scrollListener (init pg)" by auto
    from s have nt: "\<not> ticking (st (init pg))" by (simp add: s0)
    from a j have j0: "journal (init pg) = []" by auto
    then have r0: "recomputations (init pg) = []" by (simp add: recomputations_def)
    from idle_run[OF e nl nt, of evs] j0 r0 s show ?thesis
      by (simp add: s0)
  qed
  from present absent show ?thesis by blast
qed

theorem engine_initial_pass_witness:
  "scrollListener (init example_page)
   \<and> journal (init example_page)
       = [(UpdateVisuals,
           [(13, ''opacity'', CssNumber 1), (14, ''opacity'', CssNumber 0),
            (13, ''transform'', Translate3dY 0), (14, ''transform'', Translate3dY 0),
            (15, ''opacity'', CssNumber 0.08)])]
   \<and> \<not> scrollListener (run bare_page [Scroll 100, Frame] (init bare_page))
   \<and> journal (init bare_page) = []
   \<and> recomputations (run bare_page [Scroll 100, Frame] (init bare_page)) = []"
proof -
  have a: "sunrise example_page \<noteq> None \<and> sunset example_page \<noteq> None"
    and b: "sunrise bare_page = None \<or> sunset bare_page = None"
    by (simp_all add: example_page_def bare_page_def)
  have u: "updateVisuals example_page \<lparr>scrollY = winScrollY example_page,
        docHeight = scrollHeight example_page - innerHeight example_page, ticking = False\<rparr>
      = Some (\<lparr>scrollY = winScrollY example_page,
        docHeight = scrollHeight example_page - innerHeight example_page, ticking = False\<rparr>,
          [(13, ''opacity'', CssNumber 1), (14, ''opacity'', CssNumber 0),
            (13, ''transform'', Translate3dY 0), (14, ''transform'', Translate3dY 0),
            (15, ''opacity'', CssNumber 0.08)])"
    by (simp add: example_page_def updateVisuals_def setStyle_def clamp_def
          toFixed3_0 toFixed3_1)
  note present = engine_initial_pass[of example_page "[]", THEN conjunct1, rule_format, OF a]
  note absent = engine_initial_pass[of bare_page "[Scroll 100, Frame]", THEN conjunct2,
      rule_format, OF b]
  from present u absent show ?thesis by auto
qed

text \<open>
  C2. With both layers on the page, take the world after any sequence of events and let
  one or more scroll events follow with no frame in between. Then \<open>updateVisuals\<close> waits
  for the next frame exactly once, the cached offset is that of the last scroll event,
  and no recomputation has happened during the scroll events. The next frame performs
  exactly one recomputation, which is \<open>updateVisuals\<close> on the state holding the last
  offset, and clears the pending flag.
\<close>

theorem scroll_coalescing:
  assumes "sunrise pg \<noteq> None" "sunset pg \<noteq> None" "ys \<noteq> []"
  shows "let w = run pg evs (init pg); w' = run pg (map Scroll ys) w in
     count_list (rafQueue w') UpdateVisuals = 1
     \<and> st w' = (st w)\<lparr>scrollY := last ys, ticking := True\<rparr>
     \<and> recomputations w' = recomputations w
     \<and> (\<exists>ws. updateVisuals pg (st w') = Some ((st w')\<lparr>ticking := False\<rparr>, ws)
          \<and> recomputations (step pg Frame w') = recomputations w @ [ws]
          \<and> st (step pg Frame w') = (st w)\<lparr>scrollY := last ys, ticking := False\<rparr>)"
proof -
  define w where "w = run pg evs (init pg)"
  define w' where "w' = run pg (map Scroll ys) w"
  have e0: "engine_inv pg (init pg)"
    using init_world[of pg] by blast
  have e: "engine_inv pg w"
    unfolding w_def using e0 by (rule engine_inv_run)
  have l: "scrollListener w"
    using e assms(1,2) by (simp add: engine_inv_def)
  have e': "engine_inv pg w'"
    unfolding w'_def using e by (rule engine_inv_run)
  note sc = run_scrolls[OF e l assms(3), folded w'_def]
  from sc have t: "ticking (st w')" by simp
  with e' have c: "count_list (rafQueue w') UpdateVisuals = 1"
    by (simp add: engine_inv_def)
  obtain ws where u: "updateVisuals pg (st w') = Some ((st w')\<lparr>ticking := False\<rparr>, ws)"
    and f: "st (run_frame pg w') = (st w')\<lparr>ticking := False\<rparr>"
    and r: "recomputations (run_frame pg w') = recomputations w' @ [ws]"
    using handle_frame(2)[OF e' t] by blast
  have "recomputations (step pg Frame w') = recomputations w @ [ws]
      \<and> st (step pg Frame w') = (st w)\<lparr>scrollY := last ys, ticking := False\<rparr>"
    using f r sc by (simp add: step_def handle_def settle_keeps recomputations_settle)
  with u c sc show ?thesis
    unfolding Let_def w_def[symmetric] w'_def[symmetric] by blast
qed


theorem scroll_coalescing_witness:
  "count_list (rafQueue (run example_page [Scroll 500, Scroll 2000] (init example_page)))
       UpdateVisuals = 1
   \<and> st (step example_page Frame
         (run example_page [Scroll 500, Scroll 2000] (init example_page)))
       = \<lparr>scrollY = 2000, docHeight = 2000, ticking = False\<rparr>
   \<and> recomputations (step example_page Frame
         (run example_page [Scroll 500, Scroll 2000] (init example_page)))
       = recomputations (init example_page)
         @ [[(13, ''opacity'', CssNumber 0), (14, ''opacity'', CssNumber 1),
             (13, ''transform'', Translate3dY (- 8)), (14, ''transform'', Translate3dY (- 12)),
             (15, ''opacity'', CssNumber 0.26)]]"
proof -
  have a: "sunrise example_page \<noteq> None" "sunset example_page \<noteq> None"
    by (simp_all add: example_page_def)
  have s: "st (init example_page) = \<lparr>scrollY = 0, docHeight = 2000, ticking = False\<rparr>"
  proof -
    have "st (world0 example_page) = \<lparr>scrollY = 0, docHeight = 2000, ticking = False\<rparr>"
      by (simp add: world0_def example_page_def)
    with init_world[of example_page] show ?thesis by auto
  qed
  have u: "updateVisuals example_page \<lparr>scrollY = 2000, docHeight = 2000, ticking = True\<rparr>
      = Some (\<lparr>scrollY = 2000, docHeight = 2000, ticking = False\<rparr>,
          [(13, ''opacity'', CssNumber 0), (14, ''opacity'', CssNumber 1),
             (13, ''transform'', Translate3dY (- 8)), (14, ''transform'', Translate3dY (- 12)),
             (15, ''opacity'', CssNumber 0.26)])"
    by (simp add: example_page_def updateVisuals_def setStyle_def clamp_def
          toFixed3_0 toFixed3_1)
  from scroll_coalescing[OF a, of "[500, 2000]" "[]"] u show ?thesis
    by (auto simp: Let_def s run_def[of _ "[]"])
qed

section \<open>The pointer follower between tasks\<close>

lemma orb_updates_settle: "orb_updates (settle pg w) = orb_updates w"
  by (simp add: orb_updates_def settle_keeps)

lemma removeLoader_timer_callbacks:
  "filter isMoveOrbs (map snd (timers (removeLoader pg w))) = filter isMoveOrbs (map snd (timers w))"
  by (simp add: removeLoader_def setTimeout_def addClass_def split: option.splits)

lemma pointer_inv_settle: "pointer_inv pg w \<Longrightarrow> pointer_inv pg (settle pg w)"
  by (simp add: pointer_inv_def settle_keeps)
     (simp add: settle_def removeLoader_timer_callbacks)

lemma effect_quiet:
  assumes "\<not> isMoveOrbs cb"
  shows "mouseTicking (fst (effect pg cb w)) = mouseTicking w"
  using assms
  by (cases cb) (auto simp: effect_def addClass_def setTimeout_def split: option.splits)

lemma effect_pointer_keeps:
  "mouseListener (fst (effect pg cb w)) = mouseListener w"
  "rect (fst (effect pg cb w)) = rect w"
  "filter isMoveOrbs (map snd (timers (fst (effect pg cb w))))
     = filter isMoveOrbs (map snd (timers w))"
  by (cases cb; auto simp: effect_def addClass_def setTimeout_def moveOrbs_def split: option.splits)+

lemma run_callback_pointer_keeps:
  "mouseListener (run_callback pg cb w) = mouseListener w"
  "rect (run_callback pg cb w) = rect w"
  "filter isMoveOrbs (map snd (timers (run_callback pg cb w)))
     = filter isMoveOrbs (map snd (timers w))"
  "mouseTicking (run_callback pg cb w) = mouseTicking (fst (effect pg cb w))"
  using effect_pointer_keeps[of pg cb w]
  by (cases "effect pg cb w"; simp add: run_callback_def)+

lemma run_callback_quiet:
  assumes "\<not> isMoveOrbs cb"
  shows "mouseTicking (run_callback pg cb w) = mouseTicking w"
    and "orb_updates (run_callback pg cb w) = orb_updates w"
  using assms effect_quiet[OF assms, of pg w]
  by (simp_all add: run_callback_pointer_keeps run_callback_keeps orb_updates_def)

lemma run_callback_MoveOrbs:
  "\<not> mouseTicking (run_callback pg (MoveOrbs cx cy) w)
   \<and> orb_updates (run_callback pg (MoveOrbs cx cy) w)
       = orb_updates w @ [snd (moveOrbs pg cx cy w)]"
  by (simp add: run_callback_def effect_def orb_updates_def moveOrbs_def)

lemma fold_callbacks_pointer_keeps:
  "mouseListener (fold (run_callback pg) q w) = mouseListener w
   \<and> rect (fold (run_callback pg) q w) = rect w
   \<and> filter isMoveOrbs (map snd (timers (fold (run_callback pg) q w)))
       = filter isMoveOrbs (map snd (timers w))"
  by (induction q arbitrary: w) (simp_all add: run_callback_pointer_keeps)

lemma fold_callbacks_quiet:
  "filter isMoveOrbs q = [] \<Longrightarrow>
   mouseTicking (fold (run_callback pg) q w) = mouseTicking w
   \<and> orb_updates (fold (run_callback pg) q w) = orb_updates w"
proof (induction q arbitrary: w)
  case Nil
  show ?case by simp
next
  case (Cons cb q)
  then have ne: "\<not> isMoveOrbs cb" and nq: "filter isMoveOrbs q = []"
    by (auto split: if_splits)
  show ?case
    using Cons.IH[OF nq, of "run_callback pg cb w"] run_callback_quiet[OF ne, of pg w]
    by simp
qed

lemma filter_single_split:
  "filter P q = [x] \<Longrightarrow> \<exists>q1 q2. q = q1 @ x # q2 \<and> filter P q1 = [] \<and> filter P q2 = []"
proof (induction q)
  case Nil
  then show ?case by simp
next
  case (Cons y q)
  show ?case
  proof (cases "P y")
    case True
    with Cons.prems have "y = x" and "filter P q = []" by simp_all
    then have "y # q = [] @ x # q \<and> filter P [] = [] \<and> filter P q = []" by simp
    then show ?thesis by blast
  next
    case False
    with Cons.prems have "filter P q = [x]" by simp
    then obtain q1 q2 where "q = q1 @ x # q2" "filter P q1 = []" "filter P q2 = []"
      using Cons.IH by blast
    with False have "y # q = (y # q1) @ x # q2 \<and> filter P (y # q1) = [] \<and> filter P q2 = []"
      by simp
    then show ?thesis by blast
  qed
qed

lemma fold_callbacks_move_once:
  assumes "filter isMoveOrbs q = [MoveOrbs cx cy]"
  shows "\<not> mouseTicking (fold (run_callback pg) q w)
     \<and> orb_updates (fold (run_callback pg) q w) = orb_updates w @ [snd (moveOrbs pg cx cy w)]"
proof -
  obtain q1 q2 where q: "q = q1 @ MoveOrbs cx cy # q2"
    and n1: "filter isMoveOrbs q1 = []" and n2: "filter isMoveOrbs q2 = []"
    using filter_single_split[OF assms] by blast
  define w1 where "w1 = fold (run_callback pg) q1 w"
  define w2 where "w2 = run_callback pg (MoveOrbs cx cy) w1"
  have f: "fold (run_callback pg) q w = fold (run_callback pg) q2 w2"
    by (simp add: q w1_def w2_def)
  have r1: "orb_updates w1 = orb_updates w" and c1: "rect w1 = rect w"
    using fold_callbacks_quiet[OF n1, of pg w] fold_callbacks_pointer_keeps[of pg q1 w]
    by (simp_all add: w1_def)
  have m: "snd (moveOrbs pg cx cy w1) = snd (moveOrbs pg cx cy w)"
    by (simp add: moveOrbs_def c1)
  note u = run_callback_MoveOrbs[of pg cx cy w1, folded w2_def, unfolded r1 m]
  show ?thesis
    using u fold_callbacks_quiet[OF n2, of pg w2] by (simp add: f)
qed

lemma observerCallback_pointer_keeps:
  "mouseTicking (observerCallback ens w) = mouseTicking w
   \<and> mouseListener (observerCallback ens w) = mouseListener w
   \<and> rect (observerCallback ens w) = rect w"
  unfolding observerCallback_def
  by (induction ens arbitrary: w) (simp_all add: onEntry_def addClass_def)

lemma filter_remove1_empty: "filter P (map f ts) = [] \<Longrightarrow> filter P (map f (remove1 t ts)) = []"
  by (induction ts) (auto split: if_splits)

lemma filter_length_one:
  assumes "length (filter isMoveOrbs q) = 1"
  shows "\<exists>cx cy. filter isMoveOrbs q = [MoveOrbs cx cy]"
proof -
  from assms obtain cb where f: "filter isMoveOrbs q = [cb]"
    by (cases "filter isMoveOrbs q") auto
  then have "cb \<in> set (filter isMoveOrbs q)" by simp
  then have "isMoveOrbs cb" by simp
  then obtain cx cy where "cb = MoveOrbs cx cy" by (cases cb) auto
  with f show ?thesis by blast
qed

lemma pointer_frame:
  assumes "pointer_inv pg w"
  shows "pointer_inv pg (run_frame pg w)"
    and "\<not> mouseTicking (run_frame pg w)"
    and "rect (run_frame pg w) = rect w"
    and "filter isMoveOrbs (rafQueue w) = [MoveOrbs cx cy] \<Longrightarrow>
       orb_updates (run_frame pg w) = orb_updates w @ [snd (moveOrbs pg cx cy w)]"
    and "\<not> mouseTicking w \<Longrightarrow> orb_updates (run_frame pg w) = orb_updates w"
proof -
  define w0 where "w0 = w\<lparr>rafQueue := []\<rparr>"
  have rf: "run_frame pg w = fold (run_callback pg) (rafQueue w) w0"
    by (simp add: run_frame_def w0_def)
  have w0: "mouseTicking w0 = mouseTicking w" "orb_updates w0 = orb_updates w"
    "rafQueue w0 = []" "mouseListener w0 = mouseListener w" "timers w0 = timers w"
    "rect w0 = rect w" "snd (moveOrbs pg cx cy w0) = snd (moveOrbs pg cx cy w)"
    by (simp_all add: w0_def orb_updates_def moveOrbs_def)
  note k = fold_callbacks_pointer_keeps[of pg "rafQueue w" w0, folded rf, unfolded w0]
  have q: "rafQueue (run_frame pg w) = []"
    unfolding rf using fold_callbacks_keeps[of pg "rafQueue w" w0] by (simp add: w0)
  show r: "rect (run_frame pg w) = rect w" using k by simp
  show a: "orb_updates (run_frame pg w) = orb_updates w @ [snd (moveOrbs pg cx cy w)]"
    if "filter isMoveOrbs (rafQueue w) = [MoveOrbs cx cy]"
    using fold_callbacks_move_once[OF that, of pg w0] by (simp add: rf w0)
  show b: "orb_updates (run_frame pg w) = orb_updates w" if "\<not> mouseTicking w"
  proof -
    from that assms have "filter isMoveOrbs (rafQueue w) = []"
      by (simp add: pointer_inv_def)
    from fold_callbacks_quiet[OF this, of pg w0] show ?thesis
      by (simp add: rf w0)
  qed
  show t: "\<not> mouseTicking (run_frame pg w)"
  proof (cases "mouseTicking w")
    case True
    with assms have "length (filter isMoveOrbs (rafQueue w)) = 1"
      by (simp add: pointer_inv_def)
    then obtain x y where "filter isMoveOrbs (rafQueue w) = [MoveOrbs x y]"
      using filter_length_one by blast
    from fold_callbacks_move_once[OF this, of pg w0] show ?thesis
      by (simp add: rf)
  next
    case False
    with assms have "filter isMoveOrbs (rafQueue w) = []"
      by (simp add: pointer_inv_def)
    from fold_callbacks_quiet[OF this, of pg w0] False show ?thesis
      by (simp add: rf w0)
  qed
  from assms k q t show "pointer_inv pg (run_frame pg w)"
    by (simp add: pointer_inv_def)
qed

lemma pointer_timer:
  assumes "pointer_inv pg w"
  shows "pointer_inv pg (fire_timer pg w) \<and> mouseTicking (fire_timer pg w) = mouseTicking w
     \<and> orb_updates (fire_timer pg w) = orb_updates w"
proof (cases "earliest (timers w)")
  case None
  with assms show ?thesis by (simp add: fire_timer_def)
next
  case (Some t)
  define w0 where "w0 = w\<lparr>timers := remove1 t (timers w), now := max (now w) (fst t)\<rparr>"
  have ft: "fire_timer pg w = run_callback pg (snd t) w0"
    using Some by (simp add: fire_timer_def w0_def)
  have tm: "t \<in> set (timers w)" using Some by (rule earliest_mem)
  from assms have e: "filter isMoveOrbs (map snd (timers w)) = []"
    by (simp add: pointer_inv_def)
  have ne: "\<not> isMoveOrbs (snd t)"
  proof
    assume "isMoveOrbs (snd t)"
    with tm have "snd t \<in> set (filter isMoveOrbs (map snd (timers w)))" by simp
    with e show False by simp
  qed
  have t0: "filter isMoveOrbs (map snd (timers w0)) = []"
    using filter_remove1_empty[OF e, of t] by (simp add: w0_def)
  have w0: "mouseTicking w0 = mouseTicking w" "orb_updates w0 = orb_updates w"
    "rafQueue w0 = rafQueue w" "mouseListener w0 = mouseListener w"
    by (simp_all add: w0_def orb_updates_def)
  show ?thesis
    using assms run_callback_quiet[OF ne, of pg w0] t0
    by (simp add: ft run_callback_keeps(1) run_callback_pointer_keeps(1,3) w0 pointer_inv_def)
qed

lemma pointer_inv_handle:
  assumes "pointer_inv pg w"
  shows "pointer_inv pg (handle pg ev w)"
proof (cases ev)
  case Frame
  with pointer_frame(1)[OF assms] show ?thesis by (simp add: handle_def)
next
  case FireTimer
  with pointer_timer[OF assms] show ?thesis by (simp add: handle_def)
next
  case (Intersect ens)
  with assms show ?thesis
    by (auto simp: handle_def pointer_inv_def observerCallback_pointer_keeps
          observerCallback_keeps)
qed (use assms in \<open>auto simp: handle_def pointer_inv_def onMouseMove_def onScroll_def
       Let_def requestAnimationFrame_def resolveImg_def split: if_splits\<close>)

lemma pointer_inv_step: "pointer_inv pg w \<Longrightarrow> pointer_inv pg (step pg ev w)"
  unfolding step_def by (intro pointer_inv_settle pointer_inv_handle)

lemma pointer_inv_run: "pointer_inv pg w \<Longrightarrow> pointer_inv pg (run pg evs w)"
  unfolding run_def by (induction evs arbitrary: w) (simp_all add: pointer_inv_step)

lemma init_scroll_keeps:
  "rafQueue (init_scroll pg w) = rafQueue w" "timers (init_scroll pg w) = timers w"
  "mouseTicking (init_scroll pg w) = mouseTicking w"
  "mouseListener (init_scroll pg w) = mouseListener w"
  using init_scroll_world[of pg w]
  by (cases "sunrise pg \<noteq> None \<and> sunset pg \<noteq> None"; auto)+

lemma pointer_inv_init: "pointer_inv pg (init pg)"
proof -
  define w2 where "w2 = init_loader pg (init_intro pg (world0 pg))"
  have "filter isMoveOrbs (map snd (timers (init_intro pg (world0 pg)))) = []"
    by (simp add: init_intro_def world0_def setTimeout_def requestAnimationFrame_def)
  then have t2: "filter isMoveOrbs (map snd (timers w2)) = []"
    by (simp add: w2_def init_loader_def removeLoader_timer_callbacks setTimeout_def)
  have q2: "filter isMoveOrbs (rafQueue w2) = []"
    by (simp add: w2_def init_loader_keeps init_intro_def world0_def setTimeout_def
          requestAnimationFrame_def)
  define w3 where "w3 = init_scroll pg w2"
  have m2: "\<not> mouseTicking w2" "\<not> mouseListener w2"
    by (simp_all add: w2_def init_loader_def removeLoader_keeps setTimeout_def
          init_intro_def world0_def requestAnimationFrame_def)
  have k3: "rafQueue w3 = rafQueue w2" "timers w3 = timers w2"
    "mouseTicking w3 = mouseTicking w2" "mouseListener w3 = mouseListener w2"
    unfolding w3_def by (rule init_scroll_keeps)+
  define w5 where "w5 = init_pointer pg (init_reveal pg w3)"
  have "pointer_inv pg w5"
    using t2 q2 m2 by (simp add: w5_def init_pointer_def init_reveal_def pointer_inv_def k3)
  moreover have "init pg = settle pg w5"
    by (simp add: init_def w5_def w3_def w2_def)
  ultimately show ?thesis
    by (simp add: pointer_inv_settle)
qed

lemma step_move_first:
  assumes "mouseListener w" "\<not> mouseTicking w"
  shows "rafQueue (step pg (MouseMove cx cy) w) = rafQueue w @ [MoveOrbs cx cy]
     \<and> mouseTicking (step pg (MouseMove cx cy) w)
     \<and> mouseListener (step pg (MouseMove cx cy) w)
     \<and> rect (step pg (MouseMove cx cy) w) = rect w
     \<and> orb_updates (step pg (MouseMove cx cy) w) = orb_updates w"
  using assms
  by (simp add: step_def handle_def settle_keeps orb_updates_settle onMouseMove_def
        requestAnimationFrame_def orb_updates_def)

lemma run_moves_dropped:
  assumes "mouseListener w" "mouseTicking w"
  shows "rafQueue (run pg (map (\<lambda>p. MouseMove (fst p) (snd p)) ps) w) = rafQueue w
     \<and> mouseTicking (run pg (map (\<lambda>p. MouseMove (fst p) (snd p)) ps) w)
     \<and> rect (run pg (map (\<lambda>p. MouseMove (fst p) (snd p)) ps) w) = rect w
     \<and> orb_updates (run pg (map (\<lambda>p. MouseMove (fst p) (snd p)) ps) w) = orb_updates w"
  using assms
proof (induction ps arbitrary: w)
  case Nil
  then show ?case by (simp add: run_def)
next
  case (Cons p ps)
  define w1 where "w1 = step pg (MouseMove (fst p) (snd p)) w"
  have s: "rafQueue w1 = rafQueue w" "mouseTicking w1" "mouseListener w1" "rect w1 = rect w"
    "orb_updates w1 = orb_updates w"
    using Cons.prems
    by (simp_all add: w1_def step_def handle_def settle_keeps orb_updates_settle
          onMouseMove_def)
  from Cons.IH[OF s(3,2)] s show ?case
    by (simp add: run_def w1_def)
qed

lemma pointer_first_event:
  fixes cx cy :: real and ps :: "(real \<times> real) list"
  assumes "pointer_inv pg w" "mouseListener w" "\<not> mouseTicking w"
  defines "w' \<equiv> run pg (map (\<lambda>p. MouseMove (fst p) (snd p)) ((cx, cy) # ps)) w"
  shows "filter isMoveOrbs (rafQueue w') = [MoveOrbs cx cy]
     \<and> orb_updates w' = orb_updates w
     \<and> orb_updates (step pg Frame w')
         = orb_updates w @ [concat (map (\<lambda>btn.
              [(btn, ''--mx'', CssPx (cx - fst (rect w btn))),
               (btn, ''--my'', CssPx (cy - snd (rect w btn)))]) (orbs pg))]
     \<and> \<not> mouseTicking (step pg Frame w')"
proof -
  define w1 where "w1 = step pg (MouseMove cx cy) w"
  note f = step_move_first[OF assms(2,3), of pg cx cy, folded w1_def]
  from f have l1: "mouseListener w1" and t1: "mouseTicking w1" by simp_all
  have r: "w' = run pg (map (\<lambda>p. MouseMove (fst p) (snd p)) ps) w1"
    by (simp add: w'_def run_def w1_def)
  note d = run_moves_dropped[OF l1 t1, of pg ps, folded r]
  from assms(1,3) have "filter isMoveOrbs (rafQueue w) = []"
    by (simp add: pointer_inv_def)
  with d f have q: "filter isMoveOrbs (rafQueue w') = [MoveOrbs cx cy]" by simp
  have i': "pointer_inv pg w'"
    unfolding w'_def using assms(1) by (rule pointer_inv_run)
  have m: "snd (moveOrbs pg cx cy w') = concat (map (\<lambda>btn.
              [(btn, ''--mx'', CssPx (cx - fst (rect w btn))),
               (btn, ''--my'', CssPx (cy - snd (rect w btn)))]) (orbs pg))"
    using d f by (simp add: moveOrbs_def)
  have "orb_updates (step pg Frame w') = orb_updates w' @ [snd (moveOrbs pg cx cy w')]"
    using pointer_frame(4)[OF i' q] by (simp add: step_def handle_def orb_updates_settle)
  moreover have "\<not> mouseTicking (step pg Frame w')"
    using pointer_frame(2)[OF i'] by (simp add: step_def handle_def settle_keeps)
  ultimately show ?thesis
    using q d f m by simp
qed

lemma init_pointer_world:
  "\<not> mouseTicking (init pg) \<and> rect (init pg) = htmlRect pg \<and> orb_updates (init pg) = []"
proof -
  define w2 where "w2 = init_loader pg (init_intro pg (world0 pg))"
  have m2: "\<not> mouseTicking w2" "rect w2 = htmlRect pg"
    by (simp_all add: w2_def init_loader_def removeLoader_keeps setTimeout_def
          init_intro_def world0_def requestAnimationFrame_def)
  define w3 where "w3 = init_scroll pg w2"
  have m3: "\<not> mouseTicking w3"
    using m2 by (simp add: w3_def init_scroll_keeps)
  have r3: "rect w3 = htmlRect pg"
    using m2 init_scroll_world[of pg w2]
    by (cases "sunrise pg \<noteq> None \<and> sunset pg \<noteq> None"; auto simp: w3_def)
  have ini: "init pg = settle pg (init_pointer pg (init_reveal pg w3))"
    by (simp add: init_def w3_def w2_def)
  have "orb_updates (init pg) = []"
    using init_world[of pg] by (auto simp: orb_updates_def)
  with m3 r3 show ?thesis
    by (simp add: ini settle_keeps init_pointer_def init_reveal_def)
qed

text \<open>
  What the mousemove listener and \<open>moveOrbs\<close> do on every page with a fine pointer and
  an orb: after any sequence of events that leaves no pointer update pending, one or
  more mousemove events with no frame in between leave exactly one \<open>moveOrbs\<close> callback
  waiting, the closure over the first of these events, and the next frame makes exactly
  one batched update, from the coordinates of that first event.
\<close>

lemma moveOrbs_closes_over_first_event:
  fixes cx cy :: real and ps :: "(real \<times> real) list"
  assumes "pointerFine pg" "orbs pg \<noteq> []" "\<not> mouseTicking (run pg evs (init pg))"
  shows "let w = run pg evs (init pg);
             w' = run pg (map (\<lambda>p. MouseMove (fst p) (snd p)) ((cx, cy) # ps)) w
         in filter isMoveOrbs (rafQueue w') = [MoveOrbs cx cy]
            \<and> orb_updates w' = orb_updates w
            \<and> orb_updates (step pg Frame w')
                = orb_updates w @ [concat (map (\<lambda>btn.
                    [(btn, ''--mx'', CssPx (cx - fst (rect w btn))),
                     (btn, ''--my'', CssPx (cy - snd (rect w btn)))]) (orbs pg))]
            \<and> \<not> mouseTicking (step pg Frame w')"
proof -
  define w where "w = run pg evs (init pg)"
  have i: "pointer_inv pg w"
    unfolding w_def using pointer_inv_init by (rule pointer_inv_run)
  with assms(1,2) have l: "mouseListener w"
    by (simp add: pointer_inv_def)
  from assms(3) have t: "\<not> mouseTicking w" by (simp add: w_def)
  from pointer_first_event[OF i l t, of cx cy ps] show ?thesis
    unfolding Let_def w_def[symmetric] .
qed

text \<open>
  C4. The pointer follower is to make one batched update of all orbs per frame, from the
  most recent pointer coordinates, those of the last mousemove event of the frame. The
  code makes the one batched update, but from stale coordinates: the listener hands
  \<open>requestAnimationFrame\<close> a closure over the event that passed the \<open>mouseTicking\<close> gate
  and records nothing of the events that follow, where \<open>onScroll\<close> stores the new offset
  of every event before its gate. On the example page, after mousemove events at
  (10, 10) and then (50, 60), the frame writes the orb's variables from (10, 10); the
  last event would give (50, 60).
\<close>

theorem pointer_follower_stale_coordinates:
  "orb_updates (step example_page Frame
       (run example_page [MouseMove 10 10, MouseMove 50 60] (init example_page)))
     = [[(18, ''--mx'', CssPx 10), (18, ''--my'', CssPx 10)]]
   \<and> snd (moveOrbs example_page 50 60
         (run example_page [MouseMove 10 10, MouseMove 50 60] (init example_page)))
     = [(18, ''--mx'', CssPx 50), (18, ''--my'', CssPx 60)]
   \<and> orb_updates (step example_page Frame
       (run example_page [MouseMove 10 10, MouseMove 50 60] (init example_page)))
     \<noteq> [snd (moveOrbs example_page 50 60
         (run example_page [MouseMove 10 10, MouseMove 50 60] (init example_page)))]"
proof -
  have i: "pointer_inv example_page (init example_page)"
    by (rule pointer_inv_init)
  then have l: "mouseListener (init example_page)"
    by (simp add: pointer_inv_def example_page_def)
  have t: "\<not> mouseTicking (init example_page)"
    and c: "rect (init example_page) = (\<lambda>_. (0, 0))" "orb_updates (init example_page) = []"
    using init_pointer_world[of example_page] by (simp_all add: example_page_def)
  have d: "orbs example_page = [18]"
    by (simp add: example_page_def)
  note f = pointer_first_event[OF i l t, of 10 10 "[(50, 60)]"]
  have r: "rect (run example_page [MouseMove 10 10, MouseMove 50 60] (init example_page))
      = (\<lambda>_. (0, 0))"
  proof -
    have l1: "mouseListener (step example_page (MouseMove 10 10) (init example_page))"
      and t1: "mouseTicking (step example_page (MouseMove 10 10) (init example_page))"
      and r1: "rect (step example_page (MouseMove 10 10) (init example_page))
          = rect (init example_page)"
      using step_move_first[OF l t, of example_page 10 10] by simp_all
    from run_moves_dropped[OF l1 t1, of example_page "[(50, 60)]"] r1 c show ?thesis
      by (simp add: run_def)
  qed
  from f show ?thesis
    by (simp add: c d r moveOrbs_def)
qed

section \<open>The page loader between tasks\<close>

lemma effect_loader:
  "raceState (fst (effect pg cb w)) = raceState w
   \<and> imgPromises (fst (effect pg cb w)) = imgPromises w
   \<and> now (fst (effect pg cb w)) = now w
   \<and> (''hidden'' \<in> classList (fst (effect pg cb w)) e) = (''hidden'' \<in> classList w e)
   \<and> timeoutPromise (fst (effect pg cb w)) = (timeoutPromise w \<or> cb = RaceTimeout)
   \<and> set (timers w) \<subseteq> set (timers (fst (effect pg cb w)))
   \<and> snd ` (set (timers (fst (effect pg cb w))) - set (timers w)) \<subseteq> {Floaty}"
  by (cases cb)
     (auto simp: effect_def addClass_def setTimeout_def moveOrbs_def split: option.splits)

lemma run_callback_loader:
  "raceState (run_callback pg cb w) = raceState w
   \<and> imgPromises (run_callback pg cb w) = imgPromises w
   \<and> now (run_callback pg cb w) = now w
   \<and> (''hidden'' \<in> classList (run_callback pg cb w) e) = (''hidden'' \<in> classList w e)
   \<and> timeoutPromise (run_callback pg cb w) = (timeoutPromise w \<or> cb = RaceTimeout)
   \<and> set (timers w) \<subseteq> set (timers (run_callback pg cb w))
   \<and> snd ` (set (timers (run_callback pg cb w)) - set (timers w)) \<subseteq> {Floaty}"
  using effect_loader[of pg cb w e]
  by (cases "effect pg cb w") (simp add: run_callback_def)

lemma fold_callbacks_loader:
  "raceState (fold (run_callback pg) q w) = raceState w
   \<and> imgPromises (fold (run_callback pg) q w) = imgPromises w
   \<and> now (fold (run_callback pg) q w) = now w
   \<and> (''hidden'' \<in> classList (fold (run_callback pg) q w) e) = (''hidden'' \<in> classList w e)
   \<and> timeoutPromise (fold (run_callback pg) q w) = (timeoutPromise w \<or> RaceTimeout \<in> set q)
   \<and> set (timers w) \<subseteq> set (timers (fold (run_callback pg) q w))
   \<and> snd ` (set (timers (fold (run_callback pg) q w)) - set (timers w)) \<subseteq> {Floaty}"
proof (induction q arbitrary: w)
  case Nil
  show ?case by simp
next
  case (Cons cb q)
  define w1 where "w1 = run_callback pg cb w"
  note a = run_callback_loader[of pg cb w e, folded w1_def]
  note b = Cons.IH[of w1]
  have "snd ` (set (timers (fold (run_callback pg) q w1)) - set (timers w)) \<subseteq> {Floaty}"
    using a b by blast
  moreover have "set (timers w) \<subseteq> set (timers (fold (run_callback pg) q w1))"
    using a b by blast
  ultimately show ?case
    using a b by (auto simp: w1_def[symmetric])
qed

lemma observerCallback_loader:
  "raceState (observerCallback ens w) = raceState w
   \<and> imgPromises (observerCallback ens w) = imgPromises w
   \<and> now (observerCallback ens w) = now w
   \<and> (''hidden'' \<in> classList (observerCallback ens w) e) = (''hidden'' \<in> classList w e)
   \<and> timeoutPromise (observerCallback ens w) = timeoutPromise w"
  unfolding observerCallback_def
  by (induction ens arbitrary: w) (simp_all add: onEntry_def addClass_def)

lemma imgDone_resolve:
  assumes "imgPromises u = map (imgDone pg evs) [0..<length (bgImgs pg)]"
    and "ev = ImgLoad i \<or> ev = ImgError i"
  shows "imgPromises (resolveImg pg i u) = map (imgDone pg (evs @ [ev])) [0..<length (bgImgs pg)]"
proof (cases "i < length (bgImgs pg) \<and> \<not> bgImgs pg ! i")
  case True
  have e: "(map (imgDone pg evs) [0..<length (bgImgs pg)])[i := True]
      = map (imgDone pg (evs @ [ev])) [0..<length (bgImgs pg)]"
    using assms(2) True
    by (intro nth_equalityI) (auto simp: imgDone_def nth_list_update)
  from True have "imgPromises (resolveImg pg i u) = (imgPromises u)[i := True]"
    by (simp add: resolveImg_def)
  then show ?thesis
    using assms(1) e by simp
next
  case False
  have e: "map (imgDone pg evs) [0..<length (bgImgs pg)]
      = map (imgDone pg (evs @ [ev])) [0..<length (bgImgs pg)]"
    using assms(2) False
    by (intro nth_equalityI) (auto simp: imgDone_def)
  from False have "resolveImg pg i u = u"
    by (auto simp: resolveImg_def)
  then show ?thesis
    using assms(1) e by simp
qed

lemma imgDone_other:
  assumes "\<And>i. ev \<noteq> ImgLoad i" "\<And>i. ev \<noteq> ImgError i"
  shows "imgDone pg (evs @ [ev]) = imgDone pg evs"
  using assms by (auto simp: imgDone_def fun_eq_iff)

lemma imgDone_mono: "imgDone pg evs i \<Longrightarrow> imgDone pg (evs @ [ev]) i"
  by (auto simp: imgDone_def)

text \<open>The world after the handler of a task, before the microtask checkpoint.\<close>

lemma loader_handle:
  fixes ev :: event
  assumes "loader_inv pg evs u"
  defines "v \<equiv> handle pg ev u"
  shows "raceState v = raceState u
     \<and> imgPromises v = map (imgDone pg (evs @ [ev])) [0..<length (bgImgs pg)]
     \<and> (timeoutPromise u \<longrightarrow> timeoutPromise v)
     \<and> (timeoutPromise v \<longrightarrow> 1500 \<le> now v)
     \<and> (timeoutPromise v \<or> (1500, RaceTimeout) \<in> set (timers v))
     \<and> (\<forall>t\<in>set (timers v). snd t = RaceTimeout \<longrightarrow> fst t = 1500)
     \<and> RaceTimeout \<notin> set (rafQueue v)
     \<and> (''hidden'' \<in> classList v l) = (''hidden'' \<in> classList u l)"
proof -
  note inv = assms(1)[unfolded loader_inv_def]
  from inv have ip: "imgPromises u = map (imgDone pg evs) [0..<length (bgImgs pg)]" by simp
  show ?thesis
  proof (cases ev)
    case (Resize sh ih)
    then have "imgDone pg (evs @ [ev]) = imgDone pg evs" by (intro imgDone_other) auto
    with Resize inv show ?thesis by (simp add: v_def handle_def)
  next
    case (Scroll y)
    then have "imgDone pg (evs @ [ev]) = imgDone pg evs" by (intro imgDone_other) auto
    with Scroll inv show ?thesis
      by (simp add: v_def handle_def onScroll_def Let_def requestAnimationFrame_def)
  next
    case (MouseMove cx cy)
    then have "imgDone pg (evs @ [ev]) = imgDone pg evs" by (intro imgDone_other) auto
    with MouseMove inv show ?thesis
      by (simp add: v_def handle_def onMouseMove_def requestAnimationFrame_def)
  next
    case Frame
    then have d: "imgDone pg (evs @ [ev]) = imgDone pg evs" by (intro imgDone_other) auto
    define u0 where "u0 = u\<lparr>rafQueue := []\<rparr>"
    have v: "v = fold (run_callback pg) (rafQueue u) u0"
      using Frame by (simp add: v_def handle_def run_frame_def u0_def)
    note f = fold_callbacks_loader[of pg "rafQueue u" u0 l, folded v]
    have q: "rafQueue v = []"
      unfolding v using fold_callbacks_keeps[of pg "rafQueue u" u0] by (simp add: u0_def)
    have t: "\<forall>t\<in>set (timers v). snd t = RaceTimeout \<longrightarrow> fst t = 1500"
    proof
      fix t assume "t \<in> set (timers v)"
      show "snd t = RaceTimeout \<longrightarrow> fst t = 1500"
      proof (cases "t \<in> set (timers u)")
        case True
        with inv show ?thesis by blast
      next
        case False
        with \<open>t \<in> set (timers v)\<close> f have "snd t = Floaty"
          by (auto simp: u0_def)
        then show ?thesis by simp
      qed
    qed
    from f inv q t d show ?thesis
      by (auto simp: u0_def)
  next
    case FireTimer
    then have d: "imgDone pg (evs @ [ev]) = imgDone pg evs" by (intro imgDone_other) auto
    show ?thesis
    proof (cases "earliest (timers u)")
      case None
      with FireTimer inv d show ?thesis
        by (simp add: v_def handle_def fire_timer_def)
    next
      case (Some t)
      define u0 where "u0 = u\<lparr>timers := remove1 t (timers u), now := max (now u) (fst t)\<rparr>"
      have v: "v = run_callback pg (snd t) u0"
        using FireTimer Some by (simp add: v_def handle_def fire_timer_def u0_def)
      note f = run_callback_loader[of pg "snd t" u0 l, folded v]
      have tm: "t \<in> set (timers u)" using Some by (rule earliest_mem)
      have q: "rafQueue v = rafQueue u"
        unfolding v by (simp add: run_callback_keeps u0_def)
      have due: "snd t = RaceTimeout \<Longrightarrow> fst t = 1500"
        using tm inv by blast
      have e: "timeoutPromise v \<longrightarrow> 1500 \<le> now v"
        using f inv due by (auto simp: u0_def)
      have g: "\<forall>x\<in>set (timers v). snd x = RaceTimeout \<longrightarrow> fst x = 1500"
      proof
        fix x assume x: "x \<in> set (timers v)"
        show "snd x = RaceTimeout \<longrightarrow> fst x = 1500"
        proof (cases "x \<in> set (timers u0)")
          case True
          then have "x \<in> set (timers u)"
            using set_remove1_subset[of t "timers u"] by (auto simp: u0_def)
          with inv show ?thesis by blast
        next
          case False
          with x f have "snd x = Floaty" by auto
          then show ?thesis by simp
        qed
      qed
      have h: "timeoutPromise v \<or> (1500, RaceTimeout) \<in> set (timers v)"
      proof (cases "snd t = RaceTimeout")
        case True
        with f show ?thesis by simp
      next
        case False
        show ?thesis
        proof (cases "timeoutPromise u")
          case True
          with f show ?thesis by (simp add: u0_def)
        next
          case nt: False
          with inv have "(1500, RaceTimeout) \<in> set (timers u)" by simp
          moreover from False have "t \<noteq> (1500, RaceTimeout)" by auto
          ultimately have "(1500, RaceTimeout) \<in> set (timers u0)"
            by (simp add: u0_def)
          with f show ?thesis by blast
        qed
      qed
      from f inv q d e g h show ?thesis
        by (auto simp: u0_def)
    qed
  next
    case (ImgLoad i)
    with imgDone_resolve[OF ip, of ev i] inv show ?thesis
      by (simp add: v_def handle_def) (simp add: resolveImg_def)
  next
    case (ImgError i)
    with imgDone_resolve[OF ip, of ev i] inv show ?thesis
      by (simp add: v_def handle_def) (simp add: resolveImg_def)
  next
    case (Intersect ens)
    then have "imgDone pg (evs @ [ev]) = imgDone pg evs" by (intro imgDone_other) auto
    with Intersect inv observerCallback_loader[of ens u l] observerCallback_keeps[of ens u]
    show ?thesis by (simp add: v_def handle_def)
  next
    case (Relayout r)
    then have "imgDone pg (evs @ [ev]) = imgDone pg evs" by (intro imgDone_other) auto
    with Relayout inv show ?thesis by (simp add: v_def handle_def)
  qed
qed

lemma removeLoader_loader:
  "raceState (removeLoader pg w) = raceState w
   \<and> imgPromises (removeLoader pg w) = imgPromises w
   \<and> timeoutPromise (removeLoader pg w) = timeoutPromise w
   \<and> now (removeLoader pg w) = now w
   \<and> set (timers w) \<subseteq> set (timers (removeLoader pg w))
   \<and> snd ` (set (timers (removeLoader pg w)) - set (timers w)) \<subseteq> {LoaderRemove}"
  by (auto simp: removeLoader_def setTimeout_def addClass_def split: option.splits)

lemma loader_inv_step:
  assumes "loader_inv pg evs u"
  shows "loader_inv pg (evs @ [ev]) (step pg ev u)"
proof -
  define v where "v = handle pg ev u"
  note inv = assms[unfolded loader_inv_def]
  note h = loader_handle[OF assms, of ev, folded v_def]
  have ip: "imgPromises v = map (imgDone pg (evs @ [ev])) [0..<length (bgImgs pg)]"
    using h by simp
  have mono: "list_all (\<lambda>r. r) (imgPromises u) \<Longrightarrow> list_all (\<lambda>r. r) (imgPromises v)"
    using inv ip by (auto simp: list_all_iff imgDone_mono)
  have st: "step pg ev u = settle pg v"
    by (simp add: step_def v_def)
  show ?thesis
  proof (cases "raceState v = RacePending
      \<and> (list_all (\<lambda>r. r) (imgPromises v) \<or> timeoutPromise v)")
    case True
    define s where "s = removeLoader pg (v\<lparr>raceState := RaceSettled\<rparr>)"
    have ss: "settle pg v = s"
      using True by (simp add: settle_def s_def)
    note r = removeLoader_loader[of pg "v\<lparr>raceState := RaceSettled\<rparr>", folded s_def]
    have q: "rafQueue s = rafQueue v"
      by (simp add: s_def removeLoader_keeps)
    have g: "\<forall>t\<in>set (timers s). snd t = RaceTimeout \<longrightarrow> fst t = 1500"
    proof
      fix t assume t: "t \<in> set (timers s)"
      show "snd t = RaceTimeout \<longrightarrow> fst t = 1500"
      proof (cases "t \<in> set (timers v)")
        case True
        with h show ?thesis by blast
      next
        case False
        with t r have "snd t = LoaderRemove" by auto
        then show ?thesis by simp
      qed
    qed
    have hid: "\<forall>l. pageLoader pg = Some l \<longrightarrow> ''hidden'' \<in> classList s l"
      unfolding s_def by (simp add: removeLoader_hidden)
    have f: "timeoutPromise s \<or> (1500, RaceTimeout) \<in> set (timers s)"
      using r h by auto
    have e: "timeoutPromise s \<longrightarrow> 1500 \<le> now s"
      using r h by auto
    have "loader_inv pg (evs @ [ev]) s"
      unfolding loader_inv_def using r True q g hid ip f e h by auto
    then show ?thesis by (simp add: st ss)
  next
    case False
    then have ss: "settle pg v = v"
      by (auto simp: settle_def)
    have iff: "(raceState v = RaceSettled)
        = (list_all (\<lambda>r. r) (imgPromises v) \<or> timeoutPromise v)"
    proof (cases "raceState u")
      case NoRace
      with inv show ?thesis by simp
    next
      case RacePending
      with h False show ?thesis by auto
    next
      case RaceSettled
      with inv have "list_all (\<lambda>r. r) (imgPromises u) \<or> timeoutPromise u" by blast
      with mono h have "list_all (\<lambda>r. r) (imgPromises v) \<or> timeoutPromise v" by blast
      with RaceSettled h show ?thesis by simp
    qed
    have hid: "\<forall>l. pageLoader pg = Some l \<longrightarrow>
        (''hidden'' \<in> classList v l)
          = (''hidden'' \<in> htmlClasses pg l \<or> raceState v = RaceSettled)"
    proof (intro allI impI)
      fix l assume "pageLoader pg = Some l"
      with inv have "(''hidden'' \<in> classList u l)
          = (''hidden'' \<in> htmlClasses pg l \<or> raceState u = RaceSettled)" by blast
      moreover have "(''hidden'' \<in> classList v l) = (''hidden'' \<in> classList u l)"
        and "raceState v = raceState u"
        using loader_handle[OF assms, of ev l, folded v_def] by simp_all
      ultimately show "(''hidden'' \<in> classList v l)
          = (''hidden'' \<in> htmlClasses pg l \<or> raceState v = RaceSettled)" by simp
    qed
    have "loader_inv pg (evs @ [ev]) v"
      unfolding loader_inv_def using h inv iff hid ip by auto
    then show ?thesis by (simp add: st ss)
  qed
qed

lemma loader_inv_init:
  assumes "length (bgImgs pg) > 0"
  shows "loader_inv pg [] (init pg)"
proof -
  define w1 where "w1 = init_intro pg (world0 pg)"
  have f1: "now w1 = 0" "classList w1 = htmlClasses pg" "RaceTimeout \<notin> set (rafQueue w1)"
    "\<forall>t\<in>set (timers w1). snd t = RaceTimeout \<longrightarrow> fst t = 1500" "\<not> timeoutPromise w1"
    by (simp_all add: w1_def init_intro_def world0_def setTimeout_def requestAnimationFrame_def)
  define w2 where "w2 = init_loader pg w1"
  have f2: "now w2 = 0" "classList w2 = htmlClasses pg" "RaceTimeout \<notin> set (rafQueue w2)"
    "\<forall>t\<in>set (timers w2). snd t = RaceTimeout \<longrightarrow> fst t = 1500" "\<not> timeoutPromise w2"
    "(1500, RaceTimeout) \<in> set (timers w2)" "raceState w2 = RacePending"
    "imgPromises w2 = bgImgs pg"
    using assms f1 by (simp_all add: w2_def init_loader_def setTimeout_def)
  define w3 where "w3 = init_scroll pg w2"
  have f3: "now w3 = 0" "classList w3 = htmlClasses pg" "RaceTimeout \<notin> set (rafQueue w3)"
    "\<forall>t\<in>set (timers w3). snd t = RaceTimeout \<longrightarrow> fst t = 1500" "\<not> timeoutPromise w3"
    "(1500, RaceTimeout) \<in> set (timers w3)" "raceState w3 = RacePending"
    "imgPromises w3 = bgImgs pg"
    using f2 init_scroll_world[of pg w2]
    by (cases "sunrise pg \<noteq> None \<and> sunset pg \<noteq> None"; auto simp: w3_def)+
  define w5 where "w5 = init_pointer pg (init_reveal pg w3)"
  have f5: "now w5 = 0" "classList w5 = htmlClasses pg" "RaceTimeout \<notin> set (rafQueue w5)"
    "\<forall>t\<in>set (timers w5). snd t = RaceTimeout \<longrightarrow> fst t = 1500" "\<not> timeoutPromise w5"
    "(1500, RaceTimeout) \<in> set (timers w5)" "raceState w5 = RacePending"
    "imgPromises w5 = bgImgs pg"
    using f3 by (simp_all add: w5_def init_pointer_def init_reveal_def)
  have ini: "init pg = settle pg w5"
    by (simp add: init_def w5_def w3_def w2_def w1_def)
  have ip: "bgImgs pg = map (imgDone pg []) [0..<length (bgImgs pg)]"
    by (intro nth_equalityI) (simp_all add: imgDone_def)
  show ?thesis
  proof (cases "list_all (\<lambda>r. r) (bgImgs pg)")
    case True
    define s where "s = removeLoader pg (w5\<lparr>raceState := RaceSettled\<rparr>)"
    have ss: "settle pg w5 = s"
      using True f5 by (simp add: settle_def s_def)
    note r = removeLoader_loader[of pg "w5\<lparr>raceState := RaceSettled\<rparr>", folded s_def]
    have q: "rafQueue s = rafQueue w5"
      by (simp add: s_def removeLoader_keeps)
    have g: "\<forall>t\<in>set (timers s). snd t = RaceTimeout \<longrightarrow> fst t = 1500"
    proof
      fix t assume t: "t \<in> set (timers s)"
      show "snd t = RaceTimeout \<longrightarrow> fst t = 1500"
      proof (cases "t \<in> set (timers w5)")
        case True
        with f5 show ?thesis by blast
      next
        case False
        with t r have "snd t = LoaderRemove" by auto
        then show ?thesis by simp
      qed
    qed
    have hid: "\<forall>l. pageLoader pg = Some l \<longrightarrow> ''hidden'' \<in> classList s l"
      unfolding s_def by (simp add: removeLoader_hidden)
    have i5: "imgPromises s = map (imgDone pg []) [0..<length (bgImgs pg)]"
      using r f5 ip by simp
    have "loader_inv pg [] s"
      unfolding loader_inv_def using r f5 True q g hid i5 by auto
    then show ?thesis by (simp add: ini ss)
  next
    case False
    then have ss: "settle pg w5 = w5"
      using f5 by (simp add: settle_def)
    have i5: "imgPromises w5 = map (imgDone pg []) [0..<length (bgImgs pg)]"
      using f5 ip by simp
    have "loader_inv pg [] w5"
      unfolding loader_inv_def using f5 False i5 by auto
    then show ?thesis by (simp add: ini ss)
  qed
qed

lemma loader_inv_run:
  assumes "length (bgImgs pg) > 0"
  shows "loader_inv pg evs (run pg evs (init pg))"
proof (induction evs rule: rev_induct)
  case Nil
  from assms show ?case by (simp add: run_def loader_inv_init)
next
  case (snoc ev evs)
  from loader_inv_step[OF snoc.IH, of ev] show ?case
    by (simp add: run_def)
qed

lemma new_timers_image:
  assumes "snd ` (set (timers v) - set (timers w0)) \<subseteq> {Floaty}"
    and "set (timers w0) \<subseteq> set (timers w)"
  shows "snd ` set (timers v) \<subseteq> insert Floaty (snd ` set (timers w))"
proof
  fix c assume "c \<in> snd ` set (timers v)"
  then obtain t where t: "t \<in> set (timers v)" "c = snd t" by blast
  show "c \<in> insert Floaty (snd ` set (timers w))"
  proof (cases "t \<in> set (timers w0)")
    case True
    with assms(2) t show ?thesis by blast
  next
    case False
    with t assms(1) have "c = Floaty" by blast
    then show ?thesis by simp
  qed
qed

lemma handle_loader:
  "raceState (handle pg ev w) = raceState w
   \<and> snd ` set (timers (handle pg ev w)) \<subseteq> insert Floaty (snd ` set (timers w))"
proof (cases ev)
  case Frame
  define w0 where "w0 = w\<lparr>rafQueue := []\<rparr>"
  define v where "v = fold (run_callback pg) (rafQueue w) w0"
  note f = fold_callbacks_loader[of pg "rafQueue w" w0 0, folded v_def]
  have r: "raceState v = raceState w"
    using f by (simp add: w0_def)
  have "set (timers w0) \<subseteq> set (timers w)"
    by (simp add: w0_def)
  with f have "snd ` set (timers v) \<subseteq> insert Floaty (snd ` set (timers w))"
    by (intro new_timers_image) simp_all
  with r Frame show ?thesis
    by (simp add: handle_def run_frame_def v_def w0_def)
next
  case FireTimer
  show ?thesis
  proof (cases "earliest (timers w)")
    case None
    with FireTimer show ?thesis by (auto simp: handle_def fire_timer_def)
  next
    case (Some t)
    define w0 where "w0 = w\<lparr>timers := remove1 t (timers w), now := max (now w) (fst t)\<rparr>"
    define v where "v = run_callback pg (snd t) w0"
    note f = run_callback_loader[of pg "snd t" w0 0, folded v_def]
    have s: "set (timers w0) \<subseteq> set (timers w)"
      using set_remove1_subset[of t "timers w"] by (simp add: w0_def)
    have r: "raceState v = raceState w"
      using f by (simp add: w0_def)
    from f s have "snd ` set (timers v) \<subseteq> insert Floaty (snd ` set (timers w))"
      by (intro new_timers_image) simp_all
    with r FireTimer Some show ?thesis
      by (simp add: handle_def fire_timer_def v_def w0_def)
  qed
next
  case (Intersect ens)
  with observerCallback_loader[of ens w 0] observerCallback_keeps[of ens w]
  show ?thesis by (auto simp: handle_def)
qed (auto simp: handle_def onScroll_def Let_def onMouseMove_def requestAnimationFrame_def
       resolveImg_def)

lemma no_race_step:
  assumes "raceState w = NoRace" "RaceTimeout \<notin> snd ` set (timers w)"
  shows "raceState (step pg ev w) = NoRace \<and> RaceTimeout \<notin> snd ` set (timers (step pg ev w))"
proof -
  define v where "v = handle pg ev w"
  note h = handle_loader[of pg ev w, folded v_def]
  with assms have r: "raceState v = NoRace" and t: "RaceTimeout \<notin> snd ` set (timers v)"
    by auto
  from r have "settle pg v = v" by (simp add: settle_def)
  with r t show ?thesis by (simp add: step_def v_def)
qed

lemma no_race_run:
  assumes "raceState w = NoRace" "RaceTimeout \<notin> snd ` set (timers w)"
  shows "raceState (run pg evs w) = NoRace \<and> RaceTimeout \<notin> snd ` set (timers (run pg evs w))"
  using assms
proof (induction evs arbitrary: w)
  case Nil
  then show ?case by (simp add: run_def)
next
  case (Cons ev evs)
  note s = no_race_step[OF Cons.prems, of pg ev]
  from Cons.IH[of "step pg ev w"] s show ?case
    by (simp add: run_def)
qed

lemma init_no_images:
  assumes "length (bgImgs pg) = 0"
  shows "raceState (init pg) = NoRace \<and> RaceTimeout \<notin> snd ` set (timers (init pg))
     \<and> (pageLoader pg = Some l \<longrightarrow> ''hidden'' \<in> classList (init pg) l)"
proof -
  define w1 where "w1 = init_intro pg (world0 pg)"
  have f1: "raceState w1 = NoRace" "RaceTimeout \<notin> snd ` set (timers w1)"
    by (auto simp: w1_def init_intro_def world0_def setTimeout_def requestAnimationFrame_def)
  define w2 where "w2 = init_loader pg w1"
  have e2: "w2 = removeLoader pg w1"
    using assms by (simp add: w2_def init_loader_def)
  have f2: "raceState w2 = NoRace" "RaceTimeout \<notin> snd ` set (timers w2)"
    using f1 removeLoader_loader[of pg w1] removeLoader_timers[of pg w1]
    by (auto simp: e2)
  have h2: "pageLoader pg = Some l \<longrightarrow> ''hidden'' \<in> classList w2 l"
    by (simp add: e2 removeLoader_hidden)
  define w3 where "w3 = init_scroll pg w2"
  have f3: "raceState w3 = NoRace" "timers w3 = timers w2" "classList w3 = classList w2"
    using f2 init_scroll_world[of pg w2]
    by (cases "sunrise pg \<noteq> None \<and> sunset pg \<noteq> None"; auto simp: w3_def)+
  define w5 where "w5 = init_pointer pg (init_reveal pg w3)"
  have f5: "raceState w5 = NoRace" "timers w5 = timers w2" "classList w5 = classList w2"
    using f3 by (simp_all add: w5_def init_pointer_def init_reveal_def)
  have "settle pg w5 = w5"
    using f5 by (simp add: settle_def)
  then have "init pg = w5"
    by (simp add: init_def w5_def w3_def w2_def w1_def)
  with f5 f2 h2 show ?thesis by simp
qed

text \<open>
  C5. With no background image the handler calls \<open>removeLoader\<close> itself, during
  initialisation; no race exists and no 1500ms timer is ever registered, and an existing
  overlay is hidden when initialisation ends. With background images the handler creates
  one promise per image, resolved from the start exactly if the image is complete, and
  registers the 1500ms timer. After initialisation and any sequence of events, the promise
  of an image is resolved exactly if the image was complete or a load or an error event
  for it has arrived; the race is settled, and \<open>removeLoader\<close> has been called, exactly if all
  image promises or the timeout promise are resolved; the timeout promise is resolved
  only from 1500ms on and until then its timer is pending; and an existing overlay is
  hidden exactly if it was hidden in the HTML or the race is settled.
\<close>

theorem loader_gate:
  "(length (bgImgs pg) = 0 \<longrightarrow>
      init_loader pg w = removeLoader pg w
      \<and> raceState (run pg evs (init pg)) = NoRace
      \<and> RaceTimeout \<notin> snd ` set (timers (run pg evs (init pg)))
      \<and> (pageLoader pg = Some l \<longrightarrow> ''hidden'' \<in> classList (init pg) l))
   \<and> (length (bgImgs pg) > 0 \<longrightarrow>
      init_loader pg w
        = setTimeout RaceTimeout 1500 (w\<lparr>imgPromises := bgImgs pg, raceState := RacePending\<rparr>)
      \<and> imgPromises (run pg evs (init pg)) = map (imgDone pg evs) [0..<length (bgImgs pg)]
      \<and> (raceState (run pg evs (init pg)) = RaceSettled)
          = (list_all (imgDone pg evs) [0..<length (bgImgs pg)]
             \<or> timeoutPromise (run pg evs (init pg)))
      \<and> (timeoutPromise (run pg evs (init pg)) \<longrightarrow> 1500 \<le> now (run pg evs (init pg)))
      \<and> (timeoutPromise (run pg evs (init pg))
          \<or> (1500, RaceTimeout) \<in> set (timers (run pg evs (init pg))))
      \<and> (pageLoader pg = Some l \<longrightarrow>
           (''hidden'' \<in> classList (run pg evs (init pg)) l)
             = (''hidden'' \<in> htmlClasses pg l \<or> raceState (run pg evs (init pg)) = RaceSettled)))"
proof -
  have none: "init_loader pg w = removeLoader pg w
      \<and> raceState (run pg evs (init pg)) = NoRace
      \<and> RaceTimeout \<notin> snd ` set (timers (run pg evs (init pg)))
      \<and> (pageLoader pg = Some l \<longrightarrow> ''hidden'' \<in> classList (init pg) l)"
    if z: "length (bgImgs pg) = 0"
  proof -
    note i = init_no_images[OF z, of l]
    from i have "raceState (init pg) = NoRace" "RaceTimeout \<notin> snd ` set (timers (init pg))"
      by simp_all
    from no_race_run[OF this, of pg evs] i z show ?thesis
      by (simp add: init_loader_def)
  qed
  have some: "init_loader pg w
        = setTimeout RaceTimeout 1500 (w\<lparr>imgPromises := bgImgs pg, raceState := RacePending\<rparr>)
      \<and> imgPromises (run pg evs (init pg)) = map (imgDone pg evs) [0..<length (bgImgs pg)]
      \<and> (raceState (run pg evs (init pg)) = RaceSettled)
          = (list_all (imgDone pg evs) [0..<length (bgImgs pg)]
             \<or> timeoutPromise (run pg evs (init pg)))
      \<and> (timeoutPromise (run pg evs (init pg)) \<longrightarrow> 1500 \<le> now (run pg evs (init pg)))
      \<and> (timeoutPromise (run pg evs (init pg))
          \<or> (1500, RaceTimeout) \<in> set (timers (run pg evs (init pg))))
      \<and> (pageLoader pg = Some l \<longrightarrow>
           (''hidden'' \<in> classList (run pg evs (init pg)) l)
             = (''hidden'' \<in> htmlClasses pg l \<or> raceState (run pg evs (init pg)) = RaceSettled))"
    if p: "length (bgImgs pg) > 0"
  proof -
    define u where "u = run pg evs (init pg)"
    note inv = loader_inv_run[OF p, of evs, folded u_def, unfolded loader_inv_def]
    from inv have ip: "imgPromises u = map (imgDone pg evs) [0..<length (bgImgs pg)]"
      by simp
    have la: "list_all (\<lambda>r. r) (imgPromises u)
        = list_all (imgDone pg evs) [0..<length (bgImgs pg)]"
      unfolding ip by (simp add: list_all_iff)
    from p have "init_loader pg w
        = setTimeout RaceTimeout 1500 (w\<lparr>imgPromises := bgImgs pg, raceState := RacePending\<rparr>)"
      by (simp add: init_loader_def)
    with inv la show ?thesis
      unfolding u_def[symmetric] by simp
  qed
  from none some show ?thesis by blast
qed


theorem loader_gate_witness:
  "raceState (run bare_page [FireTimer] (init bare_page)) = NoRace
   \<and> imgPromises (run example_page [ImgError 0] (init example_page)) = [True, True]
   \<and> raceState (run example_page [ImgError 0] (init example_page)) = RaceSettled
   \<and> ''hidden'' \<in> classList (run example_page [ImgError 0] (init example_page)) 12"
proof -
  have a: "length (bgImgs bare_page) = 0"
    by (simp add: bare_page_def)
  have b: "length (bgImgs example_page) > 0" "pageLoader example_page = Some 12"
    by (simp_all add: example_page_def)
  have c: "map (imgDone example_page [ImgError 0]) [0..<length (bgImgs example_page)]
      = [True, True]"
    by (simp add: example_page_def imgDone_def upt_rec)
  note absent = loader_gate[of bare_page "world0 bare_page" "[FireTimer]" 0,
      THEN conjunct1, rule_format, OF a]
  note present = loader_gate[of example_page "world0 example_page" "[ImgError 0]" 12,
      THEN conjunct2, rule_format, OF b(1)]
  have d: "list_all (imgDone example_page [ImgError 0]) [0..<length (bgImgs example_page)]"
    by (simp add: example_page_def imgDone_def upt_rec)
  from absent present b(2) c d show ?thesis
    by simp
qed

end
